theory Spec2Isabelle
  imports Main "HOL-Library.Signed_Division" "HOL-Library.Sublist" "HOL-Library.Word"
begin

section \<open>Values, errors and panics\<close>

text \<open>
  Go's \<^verbatim>\<open>any\<close>, as \<^verbatim>\<open>encoding/json\<close> fills it: nil, bool, float64, string,
  \<^verbatim>\<open>[]any\<close> and \<^verbatim>\<open>map[string]any\<close>. Numbers are carried and never inspected by
  the program: a \<open>float64\<close> is its 64 bits. A Go map is an association list read with
  \<open>map_of\<close>.
\<close>

type_synonym float64 = "64 word"

datatype any =
    ANil
  | ABool bool
  | ANum float64
  | AStr string
  | AArr "any list"
  | AObj "(string \<times> any) list"

text \<open>
  One constructor for each error the program builds (\<^verbatim>\<open>fmt.Errorf\<close>, \<^verbatim>\<open>errors.New\<close>);
  the arguments are the values the message is formatted from, a wrapped error (\<^verbatim>\<open>%w\<close>)
  is an argument of type \<open>error\<close>. \<open>OsError\<close> is an error of the operating system,
  returned by \<^verbatim>\<open>os.ReadDir\<close> or \<^verbatim>\<open>os.Open\<close>.
\<close>

datatype error =
    RunOpNotFound string
  | DataNotObject any
  | OpNotString any
  | NotDataNotRule error
  | OrDataNotArray any
  | OrElemNotRule nat error
  | OrRunning nat error
  | AndDataNotArray any
  | AndElemNotRule nat error
  | AndRunning nat error
  | ContainsArgNotString
  | ContainsDataNotString
  | GetInvalidArgs
  | ProcessingRule string error
  | OsError string

datatype panic = IndexOutOfRange | DivideByZero | SliceBoundsOutOfRange | MakeSliceLenOutOfRange

text \<open>A call fails by returning an error (\<open>Failed\<close>) or by a run-time panic.\<close>

datatype failure = Panic panic | Failed error

section \<open>The circular buffer (messageContainer.go)\<close>

text \<open>
  Go's \<^verbatim>\<open>int\<close> fields are \<open>int\<close>. The fields of a buffer made by \<open>NewLogBuffer\<close>
  stay between 0 and the capacity, the length of an allocated slice, so the buffer's
  arithmetic never leaves the 64-bit range and is written without wrap-around.
  Allocation (\<^verbatim>\<open>make\<close>) is taken to succeed. Go's \<^verbatim>\<open>%\<close> truncates: it is \<open>smod\<close>.
\<close>

record LogBuffer =
  buffer :: "string list"
  capacity :: int
  size_b :: int
  start :: int
  end_b :: int
  isFull :: bool

definition NewLogBuffer :: "int \<Rightarrow> LogBuffer" where
  "NewLogBuffer capacity0 =
     (let capacity1 = (if capacity0 \<le> 0 then 100 else capacity0)
      in \<lparr>buffer = replicate (nat capacity1) [], capacity = capacity1,
          size_b = 0, start = 0, end_b = 0, isFull = False\<rparr>)"

text \<open>
  \<^verbatim>\<open>b.buffer[b.end] = message\<close> panics when the index is out of range, and
  \<^verbatim>\<open>% b.capacity\<close> panics when the capacity is 0; the second is reached on every path.
\<close>

definition Push :: "LogBuffer \<Rightarrow> string \<Rightarrow> failure + LogBuffer" where
  "Push b message =
     (if end_b b < 0 \<or> int (length (buffer b)) \<le> end_b b then Inl (Panic IndexOutOfRange)
      else if capacity b = 0 then Inl (Panic DivideByZero)
      else
        let b1 = b\<lparr>buffer := (buffer b)[nat (end_b b) := message]\<rparr>;
            b2 = (if isFull b1 then b1\<lparr>start := (start b1 + 1) smod capacity b1\<rparr>
                  else b1\<lparr>size_b := size_b b1 + 1\<rparr>);
            b3 = b2\<lparr>end_b := (end_b b2 + 1) smod capacity b2\<rparr>
        in Inr (if end_b b3 = start b3 then b3\<lparr>isFull := True\<rparr> else b3))"

text \<open>\<open>stepBack c n x\<close>: \<open>n\<close> rounds of \<^verbatim>\<open>x = (x - 1 + c) % c\<close>.\<close>

fun stepBack :: "int \<Rightarrow> nat \<Rightarrow> int \<Rightarrow> int" where
  "stepBack c 0 x = x"
| "stepBack c (Suc n) x = stepBack c n ((x - 1 + c) smod c)"

definition index :: "'a list \<Rightarrow> int \<Rightarrow> failure + 'a" where
  "index xs i =
     (if i < 0 \<or> int (length xs) \<le> i then Inl (Panic IndexOutOfRange) else Inr (xs ! nat i))"

text \<open>
  The last loop of \<open>Get\<close>: \<open>collect b chronoStart n\<close> is \<^verbatim>\<open>result\<close> after \<open>n\<close> rounds
  of \<^verbatim>\<open>result = append(result, b.buffer[(chronoStart + i) % b.capacity])\<close>.
\<close>

fun collect :: "LogBuffer \<Rightarrow> int \<Rightarrow> nat \<Rightarrow> failure + string list" where
  "collect b chronoStart 0 = Inr []"
| "collect b chronoStart (Suc i) =
     (case collect b chronoStart i of
        Inl f \<Rightarrow> Inl f
      | Inr result \<Rightarrow>
          (case index (buffer b) ((chronoStart + int i) smod capacity b) of
             Inl f \<Rightarrow> Inl f
           | Inr s \<Rightarrow> Inr (result @ [s])))"

definition Get :: "LogBuffer \<Rightarrow> int \<Rightarrow> int \<Rightarrow> failure + string list" where
  "Get b offset limit =
     (if offset < 0 \<or> limit \<le> 0 then Inl (Failed GetInvalidArgs)
      else if size_b b = 0 then Inr []
      else
        let totalAvailable = size_b b - offset in
        if totalAvailable \<le> 0 then Inr []
        else
          let count = (if totalAvailable < limit then totalAvailable else limit) in
          if capacity b = 0 then Inl (Panic DivideByZero)
          else
            let newestIndex = (end_b b - 1 + capacity b) smod capacity b;
                startIndex = stepBack (capacity b) (nat offset) newestIndex;
                chronoStart = stepBack (capacity b) (nat (count - 1)) startIndex
            in collect b chronoStart (nat count))"

text \<open>
  Go's \<^verbatim>\<open>s[lo:hi]\<close> (the slices here have their capacity equal to their length) and
  \<^verbatim>\<open>copy(dst, src)\<close>, which returns the destination after the copy.
\<close>

definition slice :: "'a list \<Rightarrow> int \<Rightarrow> int \<Rightarrow> failure + 'a list" where
  "slice xs lo hi =
     (if lo < 0 \<or> hi < lo \<or> int (length xs) < hi then Inl (Panic SliceBoundsOutOfRange)
      else Inr (take (nat hi - nat lo) (drop (nat lo) xs)))"

definition copy :: "'a list \<Rightarrow> 'a list \<Rightarrow> 'a list" where
  "copy dst src = (let n = min (length dst) (length src) in take n src @ drop n dst)"

definition GetAll :: "LogBuffer \<Rightarrow> failure + string list" where
  "GetAll b =
     (if size_b b = 0 then Inr []
      else if size_b b < 0 then Inl (Panic MakeSliceLenOutOfRange)
      else
        let result = replicate (nat (size_b b)) [] in
        if isFull b \<or> start b < end_b b then
          (case slice (buffer b) (start b) (end_b b) of
             Inl f \<Rightarrow> Inl f
           | Inr part \<Rightarrow> Inr (copy result part))
        else
          (case slice (buffer b) (start b) (int (length (buffer b))) of
             Inl f \<Rightarrow> Inl f
           | Inr firstPart \<Rightarrow>
               (case slice (buffer b) 0 (end_b b) of
                  Inl f \<Rightarrow> Inl f
                | Inr secondPart \<Rightarrow>
                    (let result1 = copy result firstPart in
                     case slice result1 (int (length firstPart)) (int (length result1)) of
                       Inl f \<Rightarrow> Inl f
                     | Inr rest \<Rightarrow>
                         Inr (take (length firstPart) result1 @ copy rest secondPart)))))"

definition Size :: "LogBuffer \<Rightarrow> int" where
  "Size b = size_b b"

definition Capacity :: "LogBuffer \<Rightarrow> int" where
  "Capacity b = capacity b"

definition Clear :: "LogBuffer \<Rightarrow> LogBuffer" where
  "Clear b = b\<lparr>size_b := 0, start := 0, end_b := 0, isFull := False\<rparr>"

text \<open>A sequence of \<open>Push\<close> calls, stopping at a panic.\<close>

fun PushAll :: "LogBuffer \<Rightarrow> string list \<Rightarrow> failure + LogBuffer" where
  "PushAll b [] = Inr b"
| "PushAll b (m # ms) = (case Push b m of Inl f \<Rightarrow> Inl f | Inr b' \<Rightarrow> PushAll b' ms)"

text \<open>A sequence of \<open>Push\<close> and \<open>Clear\<close> calls.\<close>

datatype call = CallPush string | CallClear

fun runCalls :: "LogBuffer \<Rightarrow> call list \<Rightarrow> failure + LogBuffer" where
  "runCalls b [] = Inr b"
| "runCalls b (CallPush m # cs) =
     (case Push b m of Inl f \<Rightarrow> Inl f | Inr b' \<Rightarrow> runCalls b' cs)"
| "runCalls b (CallClear # cs) = runCalls (Clear b) cs"

section \<open>The rule engine\<close>

record Rule =
  Op :: string
  Data :: any

text \<open>
  \<^verbatim>\<open>obj["Op"]\<close> of a missing key is nil, which is not a string; \<^verbatim>\<open>obj["Data"]\<close> of a
  missing key is nil. Every caller drops the returned rule when there is an error.
\<close>

definition ruleDataToRule :: "any \<Rightarrow> error + Rule" where
  "ruleDataToRule data =
     (case data of
        AObj obj \<Rightarrow>
          (case map_of obj ''Op'' of
             Some (AStr s) \<Rightarrow>
               Inr \<lparr>Op = s, Data = (case map_of obj ''Data'' of Some v \<Rightarrow> v | None \<Rightarrow> ANil)\<rparr>
           | Some v \<Rightarrow> Inl (OpNotString v)
           | None \<Rightarrow> Inl (OpNotString ANil))
      | _ \<Rightarrow> Inl (DataNotObject data))"

text \<open>
  The registry \<^verbatim>\<open>definedRuleOps\<close> maps a name to one of four functions. Every call of
  \<^verbatim>\<open>Run\<close> in the program passes this registry, and the four functions pass it on
  unchanged, so the parameter \<^verbatim>\<open>rules\<close> is the constant \<open>definedRuleOps\<close>.
\<close>

datatype ruleOpFn = RuleNot | RuleOr | RuleAnd | RuleContains

definition definedRuleOps :: "string \<rightharpoonup> ruleOpFn" where
  "definedRuleOps =
     [''not'' \<mapsto> RuleNot, ''or'' \<mapsto> RuleOr, ''and'' \<mapsto> RuleAnd,
      ''contains'' \<mapsto> RuleContains]"

text \<open>\<^verbatim>\<open>strings.Contains(s, substr)\<close> and \<^verbatim>\<open>strings.HasSuffix(s, suffix)\<close>, on bytes.\<close>

fun strings_Contains :: "string \<Rightarrow> string \<Rightarrow> bool" where
  "strings_Contains [] substr = (substr = [])"
| "strings_Contains (c # s) substr = (prefix substr (c # s) \<or> strings_Contains s substr)"

definition strings_HasSuffix :: "string \<Rightarrow> string \<Rightarrow> bool" where
  "strings_HasSuffix s suf = suffix suf s"

text \<open>
  A call returns Go's pair \<^verbatim>\<open>(bool, error)\<close>: the boolean is returned also when the error
  is not nil (\<^verbatim>\<open>return !ret, err\<close>, \<^verbatim>\<open>return ret, fmt.Errorf(...)\<close>). \<open>runOp\<close> is the
  call \<^verbatim>\<open>op(rules, r.Data, arg)\<close> of the function found in the registry; \<open>orLoop i\<close> and
  \<open>andLoop i\<close> are the \<^verbatim>\<open>range\<close> loops of \<^verbatim>\<open>or\<close> and \<^verbatim>\<open>and\<close> from element \<open>i\<close> on.
\<close>

function Run :: "Rule \<Rightarrow> any \<Rightarrow> bool \<times> error option"
  and runOp :: "ruleOpFn \<Rightarrow> any \<Rightarrow> any \<Rightarrow> bool \<times> error option"
  and orLoop :: "nat \<Rightarrow> any list \<Rightarrow> any \<Rightarrow> bool \<times> error option"
  and andLoop :: "nat \<Rightarrow> any list \<Rightarrow> any \<Rightarrow> bool \<times> error option"
where
  "Run r arg =
     (case definedRuleOps (Op r) of
        None \<Rightarrow> (False, Some (RunOpNotFound (Op r)))
      | Some op \<Rightarrow> runOp op (Data r) arg)"
| "runOp RuleNot data arg =
     (case ruleDataToRule data of
        Inl err \<Rightarrow> (False, Some (NotDataNotRule err))
      | Inr d \<Rightarrow> (case Run d arg of (ret, err) \<Rightarrow> (\<not> ret, err)))"
| "runOp RuleOr data arg =
     (case data of
        AArr els \<Rightarrow> orLoop 0 els arg
      | _ \<Rightarrow> (False, Some (OrDataNotArray data)))"
| "runOp RuleAnd data arg =
     (case data of
        AArr els \<Rightarrow> andLoop 0 els arg
      | _ \<Rightarrow> (False, Some (AndDataNotArray data)))"
| "runOp RuleContains data arg =
     (case arg of
        AStr d \<Rightarrow>
          (case data of
             AStr check \<Rightarrow> (strings_Contains d check, None)
           | _ \<Rightarrow> (False, Some ContainsDataNotString))
      | _ \<Rightarrow> (False, Some ContainsArgNotString))"
| "orLoop i [] arg = (False, None)"
| "orLoop i (el # els) arg =
     (case ruleDataToRule el of
        Inl err \<Rightarrow> (False, Some (OrElemNotRule i err))
      | Inr d \<Rightarrow>
          (case Run d arg of
             (ret, Some err) \<Rightarrow> (ret, Some (OrRunning i err))
           | (ret, None) \<Rightarrow> if ret then (True, None) else orLoop (Suc i) els arg))"
| "andLoop i [] arg = (True, None)"
| "andLoop i (el # els) arg =
     (case ruleDataToRule el of
        Inl err \<Rightarrow> (False, Some (AndElemNotRule i err))
      | Inr d \<Rightarrow>
          (case Run d arg of
             (ret, Some err) \<Rightarrow> (ret, Some (AndRunning i err))
           | (ret, None) \<Rightarrow> if \<not> ret then (False, None) else andLoop (Suc i) els arg))"
  by pat_completeness auto
termination
proof -
  have entry: "map_of obj k = Some v \<Longrightarrow> size v < Suc (size_list (size_prod (\<lambda>_. 0) size) obj)"
    for obj :: "(string \<times> any) list" and k v
    by (induction obj) (auto split: if_splits)
  have nested: "ruleDataToRule data = Inr d \<Longrightarrow> size (Data d) < size data" for data d
    by (auto simp add: ruleDataToRule_def dest: entry split: any.splits option.splits)
  show ?thesis
    by (relation "measure (\<lambda>x. case x of
            Inl (Inl (r, arg)) \<Rightarrow> 2 * size (Data r) + 1
          | Inl (Inr (op, data, arg)) \<Rightarrow> 2 * size data
          | Inr (Inl (i, els, arg)) \<Rightarrow> 2 * size_list size els
          | Inr (Inr (i, els, arg)) \<Rightarrow> 2 * size_list size els)")
      (auto dest: nested)
qed

section \<open>Scanning a directory\<close>

text \<open>
  What the program asks of the operating system and of the libraries is a parameter:
  \<open>os_ReadDir\<close> lists a directory, \<open>os_Open\<close> gives the lines that \<^verbatim>\<open>bufio.Scanner\<close>
  yields from the opened file, \<open>filepath_Join\<close> builds the path, and \<open>json_Unmarshal\<close>
  decodes a line into a \<^verbatim>\<open>map[string]any\<close> (\<open>None\<close> when it returns an error, which the
  program drops).
\<close>

record DirEntry =
  Name :: string
  IsDir :: bool

record Env =
  os_ReadDir :: "string \<Rightarrow> error + DirEntry list"
  os_Open :: "string \<Rightarrow> error + string list"
  filepath_Join :: "string \<Rightarrow> string \<Rightarrow> string"
  json_Unmarshal :: "string \<Rightarrow> (string \<times> any) list option"

text \<open>Go's \<^verbatim>\<open>+\<close> on \<^verbatim>\<open>int\<close> (64 bits, two's complement) wraps around.\<close>

definition int_add :: "int \<Rightarrow> int \<Rightarrow> int" where
  "int_add a b = (a + b + 2 ^ 63) mod 2 ^ 64 - 2 ^ 63"

text \<open>The two \<^verbatim>\<open>for scanner.Scan()\<close> loops over the lines of one file.\<close>

fun scanLines :: "Rule option \<Rightarrow> LogBuffer \<Rightarrow> string list \<Rightarrow> failure + LogBuffer" where
  "scanLines rule buf [] = Inr buf"
| "scanLines rule buf (text # rest) =
     (case rule of
        None \<Rightarrow>
          (case Push buf text of Inl f \<Rightarrow> Inl f | Inr buf' \<Rightarrow> scanLines rule buf' rest)
      | Some r \<Rightarrow>
          (case Run r (AStr text) of
             (match, Some err) \<Rightarrow> Inl (Failed (ProcessingRule text err))
           | (match, None) \<Rightarrow>
               if match then
                 (case Push buf text of Inl f \<Rightarrow> Inl f | Inr buf' \<Rightarrow> scanLines rule buf' rest)
               else scanLines rule buf rest))"

text \<open>The loop over the directory's entries.\<close>

fun scanEntries ::
  "Env \<Rightarrow> string \<Rightarrow> Rule option \<Rightarrow> LogBuffer \<Rightarrow> DirEntry list \<Rightarrow> failure + LogBuffer"
where
  "scanEntries env dirPath rule buf [] = Inr buf"
| "scanEntries env dirPath rule buf (de # rest) =
     (if IsDir de then scanEntries env dirPath rule buf rest
      else if \<not> strings_HasSuffix (Name de) ''.log'' then scanEntries env dirPath rule buf rest
      else
        (case os_Open env (filepath_Join env dirPath (Name de)) of
           Inl err \<Rightarrow> Inl (Failed err)
         | Inr lines \<Rightarrow>
             (case scanLines rule buf lines of
                Inl f \<Rightarrow> Inl f
              | Inr buf' \<Rightarrow> scanEntries env dirPath rule buf' rest)))"

text \<open>\<open>scanDir\<close> is \<open>processDir\<close> up to the end of the scan: it returns the filled buffer.\<close>

definition scanDir :: "Env \<Rightarrow> string \<Rightarrow> Rule option \<Rightarrow> int \<Rightarrow> int \<Rightarrow> failure + LogBuffer" where
  "scanDir env dirPath rule limit offset =
     (case os_ReadDir env dirPath of
        Inl err \<Rightarrow> Inl (Failed err)
      | Inr d \<Rightarrow> scanEntries env dirPath rule (NewLogBuffer (int_add limit offset)) d)"

text \<open>The body of the last loop: one line of the page becomes one record.\<close>

definition toRecord :: "Env \<Rightarrow> string \<Rightarrow> (string \<times> any) list" where
  "toRecord env msg =
     (case json_Unmarshal env msg of
        None \<Rightarrow> [(''message'', AStr msg)]
      | Some msgParsed \<Rightarrow> msgParsed)"

definition processDir ::
  "Env \<Rightarrow> string \<Rightarrow> Rule option \<Rightarrow> int \<Rightarrow> int \<Rightarrow> failure + (string \<times> any) list list"
where
  "processDir env dirPath rule limit offset =
     (case scanDir env dirPath rule limit offset of
        Inl f \<Rightarrow> Inl f
      | Inr buf \<Rightarrow>
          (case Get buf offset limit of
             Inl f \<Rightarrow> Inl f
           | Inr msgs \<Rightarrow> Inr (map (toRecord env) (rev msgs))))"

section \<open>What the specification says, in its own words\<close>

text \<open>
  \<open>retained C ms\<close>: of the pushed lines \<open>ms\<close>, the \<open>min (length ms) C\<close> most recent, in
  push order. \<open>page stored offset limit\<close>: the window that starts \<open>offset\<close> items back
  from the newest and extends back in time for at most \<open>limit\<close> items, oldest first.
\<close>

definition retained :: "int \<Rightarrow> string list \<Rightarrow> string list" where
  "retained C ms = drop (length ms - nat C) ms"

definition page :: "string list \<Rightarrow> int \<Rightarrow> int \<Rightarrow> string list" where
  "page stored offset limit = rev (take (nat limit) (drop (nat offset) (rev stored)))"

text \<open>
  The lines a scan visits: those of the regular files named \<^verbatim>\<open>*.log\<close>, in listing
  order; of these, the ones a scan pushes: all without a rule, the matching ones with a
  rule.
\<close>

definition eligible :: "DirEntry \<Rightarrow> bool" where
  "eligible de = (\<not> IsDir de \<and> strings_HasSuffix (Name de) ''.log'')"

definition visited :: "Env \<Rightarrow> string \<Rightarrow> DirEntry list \<Rightarrow> string list" where
  "visited env dirPath d =
     concat (map (\<lambda>de. case os_Open env (filepath_Join env dirPath (Name de)) of
                          Inl err \<Rightarrow> []
                        | Inr lines \<Rightarrow> lines)
                 (filter eligible d))"

fun selected :: "Rule option \<Rightarrow> string list \<Rightarrow> string list" where
  "selected None lines = lines"
| "selected (Some r) lines = filter (\<lambda>text. fst (Run r (AStr text))) lines"

section \<open>The buffer's invariant\<close>

text \<open>
  \<open>holds b ms\<close>: the buffer \<open>b\<close> is in the state that the pushes \<open>ms\<close> (since its
  creation or its last \<open>Clear\<close>) leave it in. The \<open>k\<close>-th push is in slot
  \<open>k mod capacity\<close> as long as it is among the \<open>capacity\<close> most recent.
\<close>

definition holds :: "LogBuffer \<Rightarrow> string list \<Rightarrow> bool" where
  "holds b ms \<longleftrightarrow>
     0 < capacity b \<and> int (length (buffer b)) = capacity b \<and>
     end_b b = int (length ms) mod capacity b \<and>
     size_b b = min (int (length ms)) (capacity b) \<and>
     isFull b = (capacity b \<le> int (length ms)) \<and>
     start b = (if capacity b \<le> int (length ms) then int (length ms) mod capacity b else 0) \<and>
     (\<forall>k<length ms. int (length ms) - int k \<le> capacity b \<longrightarrow>
        buffer b ! nat (int k mod capacity b) = ms ! k)"

section \<open>Example directories and rules\<close>

text \<open>
  \<open>twoLogFiles\<close>: a directory \<^verbatim>\<open>logs\<close> with two files of three lines, none of which
  decodes. \<open>appLog\<close>: one file with a line that decodes to the empty mapping and a line
  that does not decode; \<open>mixedLog\<close> lists a second file, which cannot be opened.
  \<open>firstLineOnly\<close> matches a line that contains a1 and returns an error on any other
  line, where \<^verbatim>\<open>or\<close> reaches the operator that is not registered.
\<close>

definition twoLogFiles :: Env where
  "twoLogFiles =
     \<lparr>os_ReadDir = (\<lambda>p. if p = ''logs''
                          then Inr [\<lparr>Name = ''a.log'', IsDir = False\<rparr>,
                                    \<lparr>Name = ''b.log'', IsDir = False\<rparr>]
                          else Inl (OsError ''no such file or directory'')),
      os_Open = (\<lambda>p. if p = ''logs/a.log'' then Inr [''a1'', ''a2'', ''a3'']
                       else if p = ''logs/b.log'' then Inr [''b1'', ''b2'', ''b3'']
                       else Inl (OsError ''no such file or directory'')),
      filepath_Join = (\<lambda>dir name. dir @ ''/'' @ name),
      json_Unmarshal = (\<lambda>msg. None)\<rparr>"

definition appLog :: Env where
  "appLog =
     \<lparr>os_ReadDir = (\<lambda>p. Inr [\<lparr>Name = ''app.log'', IsDir = False\<rparr>]),
      os_Open = (\<lambda>p. if p = ''logs/app.log'' then Inr [''{}'', ''plain text'']
                       else Inl (OsError ''no such file or directory'')),
      filepath_Join = (\<lambda>dir name. dir @ ''/'' @ name),
      json_Unmarshal = (\<lambda>msg. if msg = ''{}'' then Some [] else None)\<rparr>"

definition mixedLog :: Env where
  "mixedLog =
     appLog\<lparr>os_ReadDir := (\<lambda>p. Inr [\<lparr>Name = ''app.log'', IsDir = False\<rparr>,
                                      \<lparr>Name = ''missing.log'', IsDir = False\<rparr>])\<rparr>"

definition firstLineOnly :: Rule where
  "firstLineOnly =
     \<lparr>Op = ''or'',
      Data = AArr [AObj [(''Op'', AStr ''contains''), (''Data'', AStr ''a1'')],
                   AObj [(''Op'', AStr ''missing'')]]\<rparr>"

section \<open>The buffer: invariant and retrieval\<close>

lemma smod_nonneg: "0 \<le> a \<Longrightarrow> 0 < c \<Longrightarrow> a smod c = a mod (c::int)"
  by (cases "a = 0") (simp_all add: smod_int_alt_def)

lemma holds_New: "holds (NewLogBuffer c) []"
  by (simp add: holds_def NewLogBuffer_def Let_def)

lemma holds_Clear: "holds b ms \<Longrightarrow> holds (Clear b) []"
  by (simp add: holds_def Clear_def)

lemma mod_distinct:
  fixes k n c :: int
  assumes "k < n" "n - k < c"
  shows "k mod c \<noteq> n mod c"
proof
  assume "k mod c = n mod c"
  then have "c dvd (n - k)" by (metis mod_eq_dvd_iff)
  with assms show False
    by (metis diff_gt_0_iff_gt zdvd_imp_le not_less)
qed

lemma holds_Push:
  assumes "holds b ms"
  shows "\<exists>b'. Push b m = Inr b' \<and> holds b' (ms @ [m]) \<and> capacity b' = capacity b"
proof -
  let ?C = "capacity b" and ?N = "int (length ms)"
  from assms have C: "0 < ?C" and len: "int (length (buffer b)) = ?C"
    and e: "end_b b = ?N mod ?C" and sz: "size_b b = min ?N ?C"
    and full: "isFull b = (?C \<le> ?N)"
    and st: "start b = (if ?C \<le> ?N then ?N mod ?C else 0)"
    and cont: "\<And>k. k < length ms \<Longrightarrow> ?N - int k \<le> ?C \<Longrightarrow> buffer b ! nat (int k mod ?C) = ms ! k"
    by (simp_all add: holds_def)
  have e0: "0 \<le> end_b b" and e1: "end_b b < ?C" using C e by simp_all
  have next_e: "(end_b b + 1) smod ?C = (?N + 1) mod ?C"
    using e0 C by (simp add: smod_nonneg e mod_add_left_eq)
  have wrap: "(?N + 1) mod ?C = 0 \<longleftrightarrow> ?C \<le> ?N + 1" if "?N < ?C"
  proof
    assume "(?N + 1) mod ?C = 0"
    then have "?C dvd ?N + 1" by (simp add: dvd_eq_mod_eq_0)
    then show "?C \<le> ?N + 1" by (intro zdvd_imp_le) simp_all
  next
    assume "?C \<le> ?N + 1"
    with that have "?N + 1 = ?C" by simp
    then show "(?N + 1) mod ?C = 0" by simp
  qed
  define buf' where "buf' = (buffer b)[nat (end_b b) := m]"
  have cont': "buf' ! nat (int k mod ?C) = (ms @ [m]) ! k"
    if "k < length (ms @ [m])" "int (length (ms @ [m])) - int k \<le> ?C" for k
  proof (cases "k = length ms")
    case True
    then show ?thesis using e0 e1 len by (simp add: buf'_def e)
  next
    case False
    with that have k: "k < length ms" "?N - int k < ?C" by simp_all
    then have "int k mod ?C \<noteq> ?N mod ?C" by (intro mod_distinct) simp_all
    moreover have "0 \<le> int k mod ?C" "0 \<le> ?N mod ?C" using C by simp_all
    ultimately have "nat (int k mod ?C) \<noteq> nat (?N mod ?C)" by simp
    then show ?thesis using k cont[of k] by (simp add: buf'_def e nth_append)
  qed
  show ?thesis
  proof (cases "?C \<le> ?N")
    case True
    then have "holds (b\<lparr>buffer := buf', start := (?N + 1) mod ?C, end_b := (?N + 1) mod ?C, isFull := True\<rparr>) (ms @ [m])"
      using C len cont' sz by (simp add: holds_def buf'_def add.commute)
    moreover have "Push b m = Inr (b\<lparr>buffer := buf', start := (?N + 1) mod ?C, end_b := (?N + 1) mod ?C, isFull := True\<rparr>)"
      using True C e0 e1 len full st next_e by (simp add: Push_def Let_def buf'_def smod_nonneg mod_add_left_eq)
    ultimately show ?thesis by simp
  next
    case False
    then have lt: "?N < ?C" by simp
    let ?b' = "b\<lparr>buffer := buf', size_b := ?N + 1, end_b := (?N + 1) mod ?C, isFull := (?C \<le> ?N + 1)\<rparr>"
    have "holds ?b' (ms @ [m])"
      using C len cont' lt st wrap[OF lt] by (auto simp add: holds_def buf'_def add.commute)
    moreover have "Push b m = Inr ?b'"
      using lt C e0 e1 len full st sz next_e wrap[OF lt]
      by (auto simp add: Push_def Let_def buf'_def)
    ultimately show ?thesis by simp
  qed
qed


lemma page_eq:
  "page xs offset limit =
     drop (length xs - nat offset - nat limit) (take (length xs - nat offset) xs)"
  by (simp add: page_def drop_rev take_rev)

lemma length_page: "length (page xs offset limit) = min (nat limit) (length xs - nat offset)"
  by (simp add: page_def)

lemma stepBack_mod:
  "0 < c \<Longrightarrow> 0 \<le> x \<Longrightarrow> x < c \<Longrightarrow> stepBack c n x = (x - int n) mod c"
proof (induction n arbitrary: x)
  case 0
  then show ?case by simp
next
  case (Suc n)
  have "(x - 1 + c) smod c = (x - 1) mod c"
    using Suc.prems by (simp add: smod_nonneg)
  moreover have "stepBack c n ((x - 1) mod c) = ((x - 1) mod c - int n) mod c"
    using Suc.prems by (intro Suc.IH) simp_all
  ultimately show ?case
    by (simp add: mod_diff_left_eq algebra_simps)
qed

lemma index_in_range: "0 \<le> i \<Longrightarrow> i < int (length xs) \<Longrightarrow> index xs i = Inr (xs ! nat i)"
  by (simp add: index_def)

lemma collect_in_range:
  assumes "0 < capacity b" "int (length (buffer b)) = capacity b" "0 \<le> cs"
  shows "collect b cs n = Inr (map (\<lambda>i. buffer b ! nat ((cs + int i) mod capacity b)) [0..<n])"
proof (induction n)
  case 0
  then show ?case by simp
next
  case (Suc n)
  have "0 \<le> (cs + int n) mod capacity b" "(cs + int n) mod capacity b < capacity b"
    using assms by simp_all
  then have "index (buffer b) ((cs + int n) mod capacity b)
          = Inr (buffer b ! nat ((cs + int n) mod capacity b))"
    using assms(2) by (intro index_in_range) simp_all
  then show ?case
    using assms Suc by (simp add: smod_nonneg)
qed

lemma holds_Get:
  assumes "holds b ms"
  shows "Get b offset limit =
           (if offset < 0 \<or> limit \<le> 0 then Inl (Failed GetInvalidArgs)
            else Inr (page (retained (capacity b) ms) offset limit))"
proof (cases "offset < 0 \<or> limit \<le> 0")
  case True
  then show ?thesis by (auto simp add: Get_def)
next
  case False
  then have off: "0 \<le> offset" and lim: "0 < limit" by simp_all
  let ?C = "capacity b" and ?N = "int (length ms)"
  from assms have C: "0 < ?C" and len: "int (length (buffer b)) = ?C"
    and e: "end_b b = ?N mod ?C" and sz: "size_b b = min ?N ?C"
    and cont: "\<And>k. k < length ms \<Longrightarrow> ?N - int k \<le> ?C \<Longrightarrow> buffer b ! nat (int k mod ?C) = ms ! k"
    by (simp_all add: holds_def)
  let ?st = "retained ?C ms"
  have lst: "int (length ?st) = size_b b"
    using C sz by (auto simp add: retained_def min_def)
  show ?thesis
  proof (cases "size_b b - offset \<le> 0")
    case True
    then have "length ?st - nat offset = 0" using lst off by linarith
    then have "page ?st offset limit = []" by (simp add: page_eq)
    then show ?thesis using True off lim by (simp add: Get_def Let_def)
  next
    case avail: False
    define cnt where "cnt = (if size_b b - offset < limit then size_b b - offset else limit)"
    have cnt: "0 < cnt" "cnt \<le> size_b b - offset" "cnt \<le> limit"
      using avail lim by (simp_all add: cnt_def)
    have szN: "size_b b \<le> ?N" "size_b b \<le> ?C" using sz by simp_all
    define base where "base = ?N - offset - cnt"
    have base0: "0 \<le> base" using cnt szN by (simp add: base_def)
    have newest: "(end_b b - 1 + ?C) smod ?C = (?N - 1) mod ?C"
    proof -
      have "0 \<le> end_b b" using e C by simp
      then have "(end_b b - 1 + ?C) smod ?C = (end_b b - 1 + ?C) mod ?C"
        using C by (intro smod_nonneg) simp_all
      also have "\<dots> = (?N mod ?C - 1) mod ?C" by (simp add: e)
      also have "\<dots> = (?N - 1) mod ?C" by (simp add: mod_diff_left_eq)
      finally show ?thesis .
    qed
    have sb1: "stepBack ?C (nat offset) ((?N - 1) mod ?C) = (?N - 1 - offset) mod ?C"
      using C off by (simp add: stepBack_mod mod_diff_left_eq)
    have sb2: "stepBack ?C (nat (cnt - 1)) ((?N - 1 - offset) mod ?C) = base mod ?C"
    proof -
      have "stepBack ?C (nat (cnt - 1)) ((?N - 1 - offset) mod ?C)
              = ((?N - 1 - offset) mod ?C - int (nat (cnt - 1))) mod ?C"
        using C by (intro stepBack_mod) simp_all
      also have "\<dots> = (?N - 1 - offset - (cnt - 1)) mod ?C"
        using cnt by (simp add: mod_diff_left_eq)
      also have "?N - 1 - offset - (cnt - 1) = base" by (simp add: base_def)
      finally show ?thesis .
    qed
    have get: "Get b offset limit = collect b (base mod ?C) (nat cnt)"
      using off lim avail C cnt newest sb1 sb2
      by (simp add: Get_def Let_def cnt_def[symmetric])
    have col: "collect b (base mod ?C) (nat cnt)
                 = Inr (map (\<lambda>i. buffer b ! nat ((base mod ?C + int i) mod ?C)) [0..<nat cnt])"
      using C len by (intro collect_in_range) simp_all
    have "map (\<lambda>i. buffer b ! nat ((base mod ?C + int i) mod ?C)) [0..<nat cnt]
            = page ?st offset limit"
    proof (rule nth_equalityI)
      show "length (map (\<lambda>i. buffer b ! nat ((base mod ?C + int i) mod ?C)) [0..<nat cnt])
              = length (page ?st offset limit)"
        using lst cnt off lim avail by (simp add: length_page cnt_def min_def) linarith
    next
      fix i
      assume "i < length (map (\<lambda>i. buffer b ! nat ((base mod ?C + int i) mod ?C)) [0..<nat cnt])"
      then have i: "int i < cnt" and i': "i < nat cnt" by simp_all
      define k where "k = nat (base + int i)"
      have k: "int k = base + int i" using base0 by (simp add: k_def)
      have kN: "k < length ms" using k i off by (simp add: base_def) 
      have kC: "?N - int k \<le> ?C" using k i cnt szN by (simp add: base_def)
      have "buffer b ! nat ((base mod ?C + int i) mod ?C) = buffer b ! nat (int k mod ?C)"
        by (simp add: k mod_add_left_eq)
      also have "\<dots> = ms ! k" using kN kC by (rule cont)
      also have "ms ! k = page ?st offset limit ! i"
      proof -
        have a: "length ?st - (nat offset + nat limit) = nat (size_b b - offset - cnt)"
          using lst off lim cnt avail by (simp add: cnt_def) linarith
        have b: "length ms - nat ?C + (nat (size_b b - offset - cnt) + i) = k"
          using k sz C cnt off by (simp add: base_def min_def split: if_splits)
        have c: "nat (size_b b - offset - cnt) + i < length ?st - nat offset"
          using lst i cnt off by linarith
        have d: "length ms - nat ?C + (nat (size_b b - offset - cnt) + i) \<le> length ms"
          using b kN by simp
        have "page ?st offset limit ! i
                = take (length ?st - nat offset) ?st ! (nat (size_b b - offset - cnt) + i)"
          using c by (simp add: page_eq a del: take_drop)
        also have "\<dots> = ?st ! (nat (size_b b - offset - cnt) + i)"
          using c by simp
        also have "\<dots> = ms ! k"
          using d by (simp add: retained_def b)
        finally show ?thesis by simp
      qed
      finally show "map (\<lambda>i. buffer b ! nat ((base mod ?C + int i) mod ?C)) [0..<nat cnt] ! i
                      = page ?st offset limit ! i"
        using i' by simp
    qed
    with get col show ?thesis using off lim by simp
  qed
qed

lemma holds_GetAll:
  assumes "holds b ms"
  shows "GetAll b =
           Inr (if int (length ms) < capacity b then ms else replicate (nat (capacity b)) [])"
proof -
  let ?C = "capacity b" and ?N = "int (length ms)"
  from assms have C: "0 < ?C" and len: "int (length (buffer b)) = ?C"
    and e: "end_b b = ?N mod ?C" and sz: "size_b b = min ?N ?C"
    and full: "isFull b = (?C \<le> ?N)"
    and st: "start b = (if ?C \<le> ?N then ?N mod ?C else 0)"
    and cont: "\<And>k. k < length ms \<Longrightarrow> ?N - int k \<le> ?C \<Longrightarrow> buffer b ! nat (int k mod ?C) = ms ! k"
    by (simp_all add: holds_def)
  show ?thesis
  proof (cases "?C \<le> ?N")
    case True
    have "0 \<le> ?N mod ?C" "?N mod ?C < ?C" using C by simp_all
    then have "slice (buffer b) (?N mod ?C) (?N mod ?C) = Inr []"
      using len by (simp add: slice_def)
    then show ?thesis
      using True C sz full st e by (simp add: GetAll_def Let_def copy_def)
  next
    case False
    then have lt: "?N < ?C" by simp
    show ?thesis
    proof (cases "ms = []")
      case True
      then show ?thesis using sz C by (simp add: GetAll_def)
    next
      case ne: False
      have "take (length ms) (buffer b) = ms"
      proof (rule nth_equalityI)
        show "length (take (length ms) (buffer b)) = length ms" using lt len by simp
      next
        fix i assume "i < length (take (length ms) (buffer b))"
        then have i: "i < length ms" by simp
        then have "buffer b ! nat (int i mod ?C) = ms ! i" using lt by (intro cont) simp_all
        moreover have "int i mod ?C = int i" using i lt by simp
        ultimately show "take (length ms) (buffer b) ! i = ms ! i" using i by simp
      qed
      moreover have "slice (buffer b) 0 ?N = Inr (take (length ms) (buffer b))"
        using lt len by (simp add: slice_def)
      ultimately show ?thesis
        using lt ne C sz full st e by (simp add: GetAll_def Let_def copy_def)
    qed
  qed
qed


lemma capacity_New: "capacity (NewLogBuffer C) = (if C \<le> 0 then 100 else C)"
  by (simp add: NewLogBuffer_def)

lemma holds_PushAll:
  "holds b ms \<Longrightarrow>
     \<exists>b'. PushAll b xs = Inr b' \<and> holds b' (ms @ xs) \<and> capacity b' = capacity b"
proof (induction xs arbitrary: b ms)
  case Nil
  then show ?case by simp
next
  case (Cons x xs)
  from holds_Push[OF Cons.prems, of x] obtain b1
    where b1: "Push b x = Inr b1" "holds b1 (ms @ [x])" "capacity b1 = capacity b"
    by blast
  from Cons.IH[OF b1(2)] obtain b'
    where "PushAll b1 xs = Inr b'" "holds b' ((ms @ [x]) @ xs)" "capacity b' = capacity b1"
    by blast
  with b1 show ?case by simp
qed

lemma holds_runCalls:
  "holds b ms \<Longrightarrow>
     \<exists>b' ms'. runCalls b cs = Inr b' \<and> holds b' ms' \<and> capacity b' = capacity b"
proof (induction cs arbitrary: b ms)
  case Nil
  then show ?case by auto
next
  case (Cons c cs)
  show ?case
  proof (cases c)
    case (CallPush x)
    from holds_Push[OF Cons.prems, of x] obtain b1
      where b1: "Push b x = Inr b1" "holds b1 (ms @ [x])" "capacity b1 = capacity b"
      by blast
    from Cons.IH[OF b1(2)] b1 CallPush show ?thesis by auto
  next
    case CallClear
    have "holds (Clear b) []" using Cons.prems by (rule holds_Clear)
    from Cons.IH[OF this] CallClear show ?thesis by (auto simp add: Clear_def)
  qed
qed

lemma page_all: "length xs \<le> nat limit \<Longrightarrow> page xs 0 limit = xs"
  by (simp add: page_def)

lemma length_retained: "0 < C \<Longrightarrow> int (length (retained C ms)) = min (int (length ms)) C"
  by (auto simp add: retained_def min_def)

lemma GetAll_PushAll:
  "\<exists>b. PushAll (NewLogBuffer C) ms = Inr b \<and>
       GetAll b =
         Inr (if int (length ms) < capacity b then ms else replicate (nat (capacity b)) [])"
proof -
  from holds_PushAll[OF holds_New, of C ms] obtain b
    where "PushAll (NewLogBuffer C) ms = Inr b" "holds b ms" by auto
  then show ?thesis using holds_GetAll by blast
qed

text \<open>
  Claim C1. For a fresh buffer of capacity 2 and the pushes a, b, c, the claim gives
  \<open>GetAll\<close> the two most recent pushes b, c. The code returns two empty strings: in a
  full buffer \<open>start\<close> equals \<open>end\<close>, the slice \<^verbatim>\<open>b.buffer[b.start:b.end]\<close> is empty
  and \<^verbatim>\<open>copy\<close> leaves the freshly made result as it is.
\<close>

theorem GetAll_full_buffer_returns_blanks:
  "(case PushAll (NewLogBuffer 2) [''a'', ''b'', ''c''] of
      Inl f \<Rightarrow> Inl f
    | Inr b \<Rightarrow> GetAll b) = Inr [[], []]"
  by code_simp

text \<open>
  Claim C2. On a buffer reached by pushing \<open>ms\<close> into a fresh buffer, \<open>Get\<close> fails
  exactly when \<open>offset < 0\<close> or \<open>limit \<le> 0\<close>, and then with the invalid-argument error;
  otherwise it returns the window of the retained lines that starts \<open>offset\<close> items
  back from the newest, oldest first: nothing when the buffer is empty or
  \<open>count - offset \<le> 0\<close>, and \<open>min limit (count - offset)\<close> items otherwise. No call
  panics.
\<close>

theorem Get_returns_window:
  "\<exists>b. PushAll (NewLogBuffer C) ms = Inr b \<and>
       Size b = int (length (retained (Capacity b) ms)) \<and>
       ((\<exists>f. Get b offset limit = Inl f) \<longleftrightarrow> offset < 0 \<or> limit \<le> 0) \<and>
       (offset < 0 \<or> limit \<le> 0 \<longrightarrow> Get b offset limit = Inl (Failed GetInvalidArgs)) \<and>
       (0 \<le> offset \<and> 0 < limit \<longrightarrow>
          Get b offset limit = Inr (page (retained (Capacity b) ms) offset limit) \<and>
          (Size b = 0 \<or> Size b - offset \<le> 0 \<longrightarrow> Get b offset limit = Inr []) \<and>
          (0 < Size b - offset \<longrightarrow>
             int (length (page (retained (Capacity b) ms) offset limit))
               = min limit (Size b - offset)))"
proof -
  from holds_PushAll[OF holds_New, of C ms] obtain b
    where b: "PushAll (NewLogBuffer C) ms = Inr b" "holds b ms" by auto
  let ?st = "retained (capacity b) ms"
  have C: "0 < capacity b" and sz: "size_b b = min (int (length ms)) (capacity b)"
    using b(2) by (simp_all add: holds_def)
  have lst: "size_b b = int (length ?st)" using C sz by (simp add: length_retained)
  note get = holds_Get[OF b(2), of offset limit]
  have empty: "page ?st offset limit = []" if "0 \<le> offset" "size_b b - offset \<le> 0"
  proof -
    have "length ?st - nat offset = 0" using that lst by linarith
    then show ?thesis by (simp add: page_eq)
  qed
  have len: "int (length (page ?st offset limit)) = min limit (size_b b - offset)"
    if "0 \<le> offset" "0 < limit" "0 < size_b b - offset"
    using that lst by (simp add: length_page min_def) linarith
  have zero: "size_b b - offset \<le> 0" if "0 \<le> offset" "size_b b = 0"
    using that by simp
  show ?thesis
    using b(1) lst get empty len zero
    by (intro exI[of _ b]) (auto simp add: Size_def Capacity_def)
qed

theorem Get_returns_window_witness:
  "(0::int) \<le> 1 \<and> (0::int) < 2 \<and>
   PushAll (NewLogBuffer 3) [''a'', ''b'', ''c'', ''d'', ''e'']
     = Inr \<lparr>buffer = [''d'', ''e'', ''c''], capacity = 3, size_b = 3, start = 2, end_b = 2,
            isFull = True\<rparr> \<and>
   Get \<lparr>buffer = [''d'', ''e'', ''c''], capacity = 3, size_b = 3, start = 2, end_b = 2,
        isFull = True\<rparr> 1 2 = Inr [''c'', ''d''] \<and>
   page (retained 3 [''a'', ''b'', ''c'', ''d'', ''e'']) 1 2 = [''c'', ''d'']"
proof -
  have e: "PushAll (NewLogBuffer 3) [''a'', ''b'', ''c'', ''d'', ''e'']
     = Inr \<lparr>buffer = [''d'', ''e'', ''c''], capacity = 3, size_b = 3, start = 2, end_b = 2,
            isFull = True\<rparr>"
    by code_simp
  have p: "page (retained 3 [''a'', ''b'', ''c'', ''d'', ''e'']) 1 2 = [''c'', ''d'']"
    by code_simp
  show ?thesis
    using Get_returns_window[of 3 "[''a'', ''b'', ''c'', ''d'', ''e'']" 1 2] e p
    by (simp add: Capacity_def Size_def)
qed

text \<open>
  Claim C3. For a fresh buffer of capacity 2 and the pushes a, b, c (so \<open>N \<ge> C\<close>), the
  claim makes \<open>Get 0 2\<close> and \<open>GetAll\<close> equal. On the code \<open>Get\<close> returns b, c
  and \<open>GetAll\<close> returns two empty strings.
\<close>

theorem Get_differs_from_GetAll_when_full:
  "(case PushAll (NewLogBuffer 2) [''a'', ''b'', ''c''] of
      Inl f \<Rightarrow> None
    | Inr b \<Rightarrow> Some (Get b 0 2, GetAll b)) = Some (Inr [''b'', ''c''], Inr [[], []])"
  by code_simp

text \<open>
  Claim C4. After any sequence of \<open>Push\<close> and \<open>Clear\<close> calls on a fresh buffer no call
  has panicked and the count is between 0 and the capacity. When the count equals the
  capacity, the buffer holds that many items, and a further \<open>Push\<close> leaves the count
  unchanged, drops the oldest item alone and appends the new one. The items are read
  with \<open>Get 0 capacity\<close>. Pushing one item more than the capacity into a fresh buffer
  leaves all but the first.
\<close>

theorem Push_evicts_oldest:
  "\<exists>b. runCalls (NewLogBuffer C) calls = Inr b \<and>
       0 \<le> Size b \<and> Size b \<le> Capacity b \<and> Capacity b = Capacity (NewLogBuffer C) \<and>
       (Size b = Capacity b \<longrightarrow>
          (\<exists>items b'. Get b 0 (Capacity b) = Inr items \<and>
             int (length items) = Capacity b \<and>
             Push b m = Inr b' \<and> Size b' = Capacity b \<and>
             Get b' 0 (Capacity b) = Inr (tl items @ [m]))) \<and>
       (int (length ms) = Capacity (NewLogBuffer C) + 1 \<longrightarrow>
          (\<exists>b1. PushAll (NewLogBuffer C) ms = Inr b1 \<and> Size b1 = Capacity b1 \<and>
             Capacity b1 = Capacity (NewLogBuffer C) \<and>
             Get b1 0 (Capacity b1) = Inr (tl ms)))"
proof -
  from holds_runCalls[OF holds_New, of C calls] obtain b xs
    where b: "runCalls (NewLogBuffer C) calls = Inr b" "holds b xs"
      "capacity b = capacity (NewLogBuffer C)"
    by auto
  let ?C = "capacity b"
  have C: "0 < ?C" and sz: "size_b b = min (int (length xs)) ?C"
    using b(2) by (simp_all add: holds_def)
  have full: "\<exists>items b'. Get b 0 ?C = Inr items \<and> int (length items) = ?C \<and>
                Push b m = Inr b' \<and> size_b b' = ?C \<and> Get b' 0 ?C = Inr (tl items @ [m])"
    if "size_b b = ?C"
  proof -
    from that sz have N: "?C \<le> int (length xs)" by simp
    from holds_Push[OF b(2), of m] obtain b'
      where b': "Push b m = Inr b'" "holds b' (xs @ [m])" "capacity b' = ?C" by blast
    have l1: "int (length (retained ?C xs)) = ?C"
      using C N by (simp add: length_retained)
    have g1: "Get b 0 ?C = Inr (retained ?C xs)"
      using holds_Get[OF b(2), of 0 ?C] C l1 by (simp add: page_all)
    have l2: "int (length (retained ?C (xs @ [m]))) = ?C"
      using C N by (simp add: length_retained)
    have g2: "Get b' 0 ?C = Inr (retained ?C (xs @ [m]))"
      using holds_Get[OF b'(2), of 0 ?C] C l2 b'(3) by (simp add: page_all)
    have "Suc (length xs) - nat ?C = Suc (length xs - nat ?C)"
      using N C by linarith
    then have "retained ?C (xs @ [m]) = tl (retained ?C xs) @ [m]"
      using N C by (simp add: retained_def drop_Suc tl_drop)
    moreover have "size_b b' = ?C"
      using b'(2) b'(3) N by (simp add: holds_def)
    ultimately show ?thesis using g1 g2 l1 b'(1) by simp
  qed
  have over: "\<exists>b1. PushAll (NewLogBuffer C) ms = Inr b1 \<and> size_b b1 = capacity b1 \<and>
                capacity b1 = capacity (NewLogBuffer C) \<and>
                Get b1 0 (capacity b1) = Inr (tl ms)"
    if "int (length ms) = capacity (NewLogBuffer C) + 1"
  proof -
    from holds_PushAll[OF holds_New, of C ms] obtain b1
      where b1: "PushAll (NewLogBuffer C) ms = Inr b1" "holds b1 ms"
        "capacity b1 = capacity (NewLogBuffer C)" by auto
    have C1: "0 < capacity b1" using b1(2) by (simp add: holds_def)
    have N: "int (length ms) = capacity b1 + 1" using that b1(3) by simp
    have l: "int (length (retained (capacity b1) ms)) = capacity b1"
      using C1 N by (simp add: length_retained)
    have "Get b1 0 (capacity b1) = Inr (retained (capacity b1) ms)"
      using holds_Get[OF b1(2), of 0 "capacity b1"] C1 l by (simp add: page_all)
    moreover have "length ms - nat (capacity b1) = 1" using N C1 by linarith
    then have "retained (capacity b1) ms = tl ms"
      by (simp add: retained_def drop_Suc)
    moreover have "size_b b1 = capacity b1" using b1(2) N by (simp add: holds_def)
    ultimately show ?thesis using b1(1) b1(3) by simp
  qed
  have "0 \<le> size_b b" "size_b b \<le> ?C" using sz C by simp_all
  then show ?thesis
    using b(1) b(3) full over
    by (intro exI[of _ b]) (simp add: Size_def Capacity_def)
qed

theorem Push_evicts_oldest_witness:
  "runCalls (NewLogBuffer 2) [CallPush ''x'', CallClear, CallPush ''a'', CallPush ''b'']
     = Inr \<lparr>buffer = [''a'', ''b''], capacity = 2, size_b = 2, start = 0, end_b = 0,
            isFull = True\<rparr> \<and>
   Size \<lparr>buffer = [''a'', ''b''], capacity = 2, size_b = 2, start = 0, end_b = 0,
         isFull = True\<rparr>
     = Capacity \<lparr>buffer = [''a'', ''b''], capacity = 2, size_b = 2, start = 0, end_b = 0,
         isFull = True\<rparr> \<and>
   Get \<lparr>buffer = [''a'', ''b''], capacity = 2, size_b = 2, start = 0, end_b = 0,
        isFull = True\<rparr> 0 2 = Inr [''a'', ''b''] \<and>
   (case Push \<lparr>buffer = [''a'', ''b''], capacity = 2, size_b = 2, start = 0, end_b = 0,
               isFull = True\<rparr> ''c'' of
      Inl f \<Rightarrow> Inl f
    | Inr b' \<Rightarrow> Get b' 0 2) = Inr [''b'', ''c''] \<and>
   int (length [''a'', ''b'', ''c'']) = Capacity (NewLogBuffer 2) + 1 \<and>
   (case PushAll (NewLogBuffer 2) [''a'', ''b'', ''c''] of
      Inl f \<Rightarrow> Inl f
    | Inr b1 \<Rightarrow> Get b1 0 2) = Inr [''b'', ''c'']"
proof -
  let ?bc = "\<lparr>buffer = [''a'', ''b''], capacity = 2, size_b = 2, start = 0, end_b = 0,
              isFull = True\<rparr>"
  have e: "runCalls (NewLogBuffer 2) [CallPush ''x'', CallClear, CallPush ''a'', CallPush ''b'']
             = Inr ?bc"
    by code_simp
  have c: "Capacity (NewLogBuffer 2) = 2"
    by code_simp
  have s: "Size ?bc = Capacity ?bc" and c2: "Capacity ?bc = 2"
    by (simp_all add: Size_def Capacity_def)
  have g: "Get ?bc 0 2 = Inr [''a'', ''b'']"
    by code_simp
  have l: "int (length [''a'', ''b'', ''c'']) = Capacity (NewLogBuffer 2) + 1"
    unfolding c by simp
  from Push_evicts_oldest[of 2
      "[CallPush ''x'', CallClear, CallPush ''a'', CallPush ''b'']" "''c''" "[''a'', ''b'', ''c'']"]
  obtain b where r: "runCalls (NewLogBuffer 2)
        [CallPush ''x'', CallClear, CallPush ''a'', CallPush ''b''] = Inr b"
    and f: "Size b = Capacity b \<longrightarrow>
          (\<exists>items b'. Get b 0 (Capacity b) = Inr items \<and>
             int (length items) = Capacity b \<and>
             Push b ''c'' = Inr b' \<and> Size b' = Capacity b \<and>
             Get b' 0 (Capacity b) = Inr (tl items @ [''c'']))"
    and ov: "int (length [''a'', ''b'', ''c'']) = Capacity (NewLogBuffer 2) + 1 \<longrightarrow>
          (\<exists>b1. PushAll (NewLogBuffer 2) [''a'', ''b'', ''c''] = Inr b1 \<and> Size b1 = Capacity b1 \<and>
             Capacity b1 = Capacity (NewLogBuffer 2) \<and>
             Get b1 0 (Capacity b1) = Inr (tl [''a'', ''b'', ''c'']))"
    by blast
  have b: "b = ?bc" using r[unfolded e] by simp
  from f[unfolded b] s obtain items b'
    where "Get ?bc 0 (Capacity ?bc) = Inr items" "Push ?bc ''c'' = Inr b'"
      "Get b' 0 (Capacity ?bc) = Inr (tl items @ [''c''])"
    by blast
  then have p: "(case Push ?bc ''c'' of Inl f \<Rightarrow> Inl f | Inr b' \<Rightarrow> Get b' 0 2)
                  = Inr [''b'', ''c'']"
    unfolding c2 g by auto
  from ov l obtain b1
    where "PushAll (NewLogBuffer 2) [''a'', ''b'', ''c''] = Inr b1"
      "Capacity b1 = Capacity (NewLogBuffer 2)"
      "Get b1 0 (Capacity b1) = Inr (tl [''a'', ''b'', ''c''])"
    by blast
  then have q: "(case PushAll (NewLogBuffer 2) [''a'', ''b'', ''c''] of
                   Inl f \<Rightarrow> Inl f | Inr b1 \<Rightarrow> Get b1 0 2) = Inr [''b'', ''c'']"
    unfolding c by auto
  from e s g p l q show ?thesis by blast
qed

section \<open>The rule engine: short-circuit and negation\<close>

lemma strings_Contains_sublist: "strings_Contains s substr \<longleftrightarrow> sublist substr s"
  by (induction s) (auto simp add: sublist_Cons_right)

lemma orLoop_skips_false:
  "\<forall>el\<in>set pre. \<exists>d. ruleDataToRule el = Inr d \<and> Run d arg = (False, None) \<Longrightarrow>
     orLoop i (pre @ rest) arg = orLoop (i + length pre) rest arg"
proof (induction pre arbitrary: i)
  case Nil
  then show ?case by simp
next
  case (Cons el pre)
  then obtain d where "ruleDataToRule el = Inr d" "Run d arg = (False, None)" by auto
  moreover have "orLoop (Suc i) (pre @ rest) arg = orLoop (Suc i + length pre) rest arg"
    using Cons.prems by (intro Cons.IH) simp
  ultimately show ?case by (simp del: Run.simps)
qed

lemma andLoop_skips_true:
  "\<forall>el\<in>set pre. \<exists>d. ruleDataToRule el = Inr d \<and> Run d arg = (True, None) \<Longrightarrow>
     andLoop i (pre @ rest) arg = andLoop (i + length pre) rest arg"
proof (induction pre arbitrary: i)
  case Nil
  then show ?case by simp
next
  case (Cons el pre)
  then obtain d where "ruleDataToRule el = Inr d" "Run d arg = (True, None)" by auto
  moreover have "andLoop (Suc i) (pre @ rest) arg = andLoop (Suc i + length pre) rest arg"
    using Cons.prems by (intro Cons.IH) simp
  ultimately show ?case by (simp del: Run.simps)
qed

lemma Run_or: "Run \<lparr>Op = ''or'', Data = AArr els\<rparr> arg = orLoop 0 els arg"
  by (simp add: definedRuleOps_def)

lemma Run_and: "Run \<lparr>Op = ''and'', Data = AArr els\<rparr> arg = andLoop 0 els arg"
  by (simp add: definedRuleOps_def)

lemma Run_not: "Run \<lparr>Op = ''not'', Data = data\<rparr> arg = runOp RuleNot data arg"
  by (simp add: definedRuleOps_def)

text \<open>
  Claim C5. \<open>and\<close> of no rules is true and \<open>or\<close> of no rules is false. When the
  elements before \<open>el\<close> all evaluate to false and \<open>el\<close> evaluates to true, \<open>or\<close> is true
  whatever follows \<open>el\<close>; when the elements before \<open>el\<close> all evaluate to true and \<open>el\<close>
  evaluates to false, \<open>and\<close> is false whatever follows: the later elements \<open>post\<close> are
  arbitrary values, also ones whose evaluation is an error.
\<close>

theorem and_or_short_circuit:
  "Run \<lparr>Op = ''and'', Data = AArr []\<rparr> arg = (True, None) \<and>
   Run \<lparr>Op = ''or'', Data = AArr []\<rparr> arg = (False, None) \<and>
   ((\<forall>el\<in>set pre1. \<exists>d. ruleDataToRule el = Inr d \<and> Run d arg = (False, None)) \<and>
    ruleDataToRule el1 = Inr d1 \<and> Run d1 arg = (True, None) \<longrightarrow>
      Run \<lparr>Op = ''or'', Data = AArr (pre1 @ el1 # post1)\<rparr> arg = (True, None)) \<and>
   ((\<forall>el\<in>set pre2. \<exists>d. ruleDataToRule el = Inr d \<and> Run d arg = (True, None)) \<and>
    ruleDataToRule el2 = Inr d2 \<and> Run d2 arg = (False, None) \<longrightarrow>
      Run \<lparr>Op = ''and'', Data = AArr (pre2 @ el2 # post2)\<rparr> arg = (False, None))"
proof (intro conjI impI)
  show "Run \<lparr>Op = ''and'', Data = AArr []\<rparr> arg = (True, None)"
    by (simp add: Run_and del: Run.simps)
  show "Run \<lparr>Op = ''or'', Data = AArr []\<rparr> arg = (False, None)"
    by (simp add: Run_or del: Run.simps)
next
  assume a: "(\<forall>el\<in>set pre1. \<exists>d. ruleDataToRule el = Inr d \<and> Run d arg = (False, None)) \<and>
    ruleDataToRule el1 = Inr d1 \<and> Run d1 arg = (True, None)"
  then have "orLoop 0 (pre1 @ el1 # post1) arg = orLoop (0 + length pre1) (el1 # post1) arg"
    by (intro orLoop_skips_false) simp
  also have "\<dots> = (True, None)" using a by (simp del: Run.simps)
  finally show "Run \<lparr>Op = ''or'', Data = AArr (pre1 @ el1 # post1)\<rparr> arg = (True, None)"
    by (simp only: Run_or)
next
  assume a: "(\<forall>el\<in>set pre2. \<exists>d. ruleDataToRule el = Inr d \<and> Run d arg = (True, None)) \<and>
    ruleDataToRule el2 = Inr d2 \<and> Run d2 arg = (False, None)"
  then have "andLoop 0 (pre2 @ el2 # post2) arg = andLoop (0 + length pre2) (el2 # post2) arg"
    by (intro andLoop_skips_true) simp
  also have "\<dots> = (False, None)" using a by (simp del: Run.simps)
  finally show "Run \<lparr>Op = ''and'', Data = AArr (pre2 @ el2 # post2)\<rparr> arg = (False, None)"
    by (simp only: Run_and)
qed

theorem and_or_short_circuit_witness:
  "ruleDataToRule (AObj [(''Op'', AStr ''contains''), (''Data'', AStr ''warn'')])
     = Inr \<lparr>Op = ''contains'', Data = AStr ''warn''\<rparr> \<and>
   Run \<lparr>Op = ''contains'', Data = AStr ''warn''\<rparr> (AStr ''Error: disk full'') = (False, None) \<and>
   ruleDataToRule (AObj [(''Op'', AStr ''contains''), (''Data'', AStr ''Err'')])
     = Inr \<lparr>Op = ''contains'', Data = AStr ''Err''\<rparr> \<and>
   Run \<lparr>Op = ''contains'', Data = AStr ''Err''\<rparr> (AStr ''Error: disk full'') = (True, None) \<and>
   Run \<lparr>Op = ''missing'', Data = ANil\<rparr> (AStr ''Error: disk full'')
     = (False, Some (RunOpNotFound ''missing'')) \<and>
   Run \<lparr>Op = ''or'', Data = AArr
          [AObj [(''Op'', AStr ''contains''), (''Data'', AStr ''warn'')],
           AObj [(''Op'', AStr ''contains''), (''Data'', AStr ''Err'')],
           AObj [(''Op'', AStr ''missing'')]]\<rparr> (AStr ''Error: disk full'') = (True, None) \<and>
   Run \<lparr>Op = ''and'', Data = AArr
          [AObj [(''Op'', AStr ''contains''), (''Data'', AStr ''Err'')],
           AObj [(''Op'', AStr ''contains''), (''Data'', AStr ''warn'')],
           AObj [(''Op'', AStr ''missing'')]]\<rparr> (AStr ''Error: disk full'') = (False, None)"
proof -
  have t: "Run \<lparr>Op = ''contains'', Data = AStr ''Err''\<rparr> (AStr ''Error: disk full'') = (True, None)"
    by code_simp
  have f: "Run \<lparr>Op = ''contains'', Data = AStr ''warn''\<rparr> (AStr ''Error: disk full'') = (False, None)"
    by code_simp
  have m: "Run \<lparr>Op = ''missing'', Data = ANil\<rparr> (AStr ''Error: disk full'')
             = (False, Some (RunOpNotFound ''missing''))"
    by code_simp
  have dt: "ruleDataToRule (AObj [(''Op'', AStr ''contains''), (''Data'', AStr ''Err'')])
              = Inr \<lparr>Op = ''contains'', Data = AStr ''Err''\<rparr>"
    by (simp add: ruleDataToRule_def)
  have df: "ruleDataToRule (AObj [(''Op'', AStr ''contains''), (''Data'', AStr ''warn'')])
              = Inr \<lparr>Op = ''contains'', Data = AStr ''warn''\<rparr>"
    by (simp add: ruleDataToRule_def)
  have pf: "\<forall>el\<in>set [AObj [(''Op'', AStr ''contains''), (''Data'', AStr ''warn'')]].
      \<exists>d. ruleDataToRule el = Inr d \<and> Run d (AStr ''Error: disk full'') = (False, None)"
    using df f by (simp del: Run.simps)
  have pt: "\<forall>el\<in>set [AObj [(''Op'', AStr ''contains''), (''Data'', AStr ''Err'')]].
      \<exists>d. ruleDataToRule el = Inr d \<and> Run d (AStr ''Error: disk full'') = (True, None)"
    using dt t by (simp del: Run.simps)
  note w = and_or_short_circuit[of "AStr ''Error: disk full''"
      "[AObj [(''Op'', AStr ''contains''), (''Data'', AStr ''warn'')]]"
      "AObj [(''Op'', AStr ''contains''), (''Data'', AStr ''Err'')]"
      "\<lparr>Op = ''contains'', Data = AStr ''Err''\<rparr>"
      "[AObj [(''Op'', AStr ''missing'')]]"
      "[AObj [(''Op'', AStr ''contains''), (''Data'', AStr ''Err'')]]"
      "AObj [(''Op'', AStr ''contains''), (''Data'', AStr ''warn'')]"
      "\<lparr>Op = ''contains'', Data = AStr ''warn''\<rparr>"
      "[AObj [(''Op'', AStr ''missing'')]]"]
  from w pf dt t have o: "Run \<lparr>Op = ''or'', Data = AArr
          ([AObj [(''Op'', AStr ''contains''), (''Data'', AStr ''warn'')]] @
           AObj [(''Op'', AStr ''contains''), (''Data'', AStr ''Err'')] #
           [AObj [(''Op'', AStr ''missing'')]])\<rparr> (AStr ''Error: disk full'') = (True, None)"
    by blast
  from w pt df f have a: "Run \<lparr>Op = ''and'', Data = AArr
          ([AObj [(''Op'', AStr ''contains''), (''Data'', AStr ''Err'')]] @
           AObj [(''Op'', AStr ''contains''), (''Data'', AStr ''warn'')] #
           [AObj [(''Op'', AStr ''missing'')]])\<rparr> (AStr ''Error: disk full'') = (False, None)"
    by blast
  from o have o': "Run \<lparr>Op = ''or'', Data = AArr
          [AObj [(''Op'', AStr ''contains''), (''Data'', AStr ''warn'')],
           AObj [(''Op'', AStr ''contains''), (''Data'', AStr ''Err'')],
           AObj [(''Op'', AStr ''missing'')]]\<rparr> (AStr ''Error: disk full'') = (True, None)"
    by (simp only: append_Cons append_Nil)
  from a have a': "Run \<lparr>Op = ''and'', Data = AArr
          [AObj [(''Op'', AStr ''contains''), (''Data'', AStr ''Err'')],
           AObj [(''Op'', AStr ''contains''), (''Data'', AStr ''warn'')],
           AObj [(''Op'', AStr ''missing'')]]\<rparr> (AStr ''Error: disk full'') = (False, None)"
    by (simp only: append_Cons append_Nil)
  from df f dt t m o' a' show ?thesis by blast
qed

text \<open>
  Claim C6, on the code. A rule whose operator is not registered evaluates to false with
  an error. \<open>not\<close> of it returns the same error, and with it the boolean true: the
  negation has been applied to the result of a failed evaluation.
\<close>

theorem not_negates_error_result_counterexample:
  "Run \<lparr>Op = ''missing'', Data = ANil\<rparr> (AStr ''line'')
     = (False, Some (RunOpNotFound ''missing'')) \<and>
   Run \<lparr>Op = ''not'', Data = AObj [(''Op'', AStr ''missing'')]\<rparr> (AStr ''line'')
     = (True, Some (RunOpNotFound ''missing''))"
  by code_simp

text \<open>
  Claim C6, amended. For every nested rule \<open>d\<close> (decoded from the data of \<open>not\<close>) and
  every candidate line, \<open>not\<close> returns the negation of the boolean that \<open>d\<close> returns,
  together with the error that \<open>d\<close> returns, unchanged: no error when \<open>d\<close> has none,
  and the same error, not wrapped, when \<open>d\<close> has one. The boolean is negated in both
  cases.
\<close>

theorem not_negates_and_keeps_error:
  "ruleDataToRule data = Inr d \<longrightarrow>
     Run \<lparr>Op = ''not'', Data = data\<rparr> arg = (\<not> fst (Run d arg), snd (Run d arg))"
  by (simp add: Run_not split: prod.splits del: Run.simps)

theorem not_negates_and_keeps_error_witness:
  "ruleDataToRule (AObj [(''Op'', AStr ''contains''), (''Data'', AStr ''Err'')])
     = Inr \<lparr>Op = ''contains'', Data = AStr ''Err''\<rparr> \<and>
   Run \<lparr>Op = ''contains'', Data = AStr ''Err''\<rparr> (AStr ''Error: disk full'') = (True, None) \<and>
   Run \<lparr>Op = ''not'', Data = AObj [(''Op'', AStr ''contains''), (''Data'', AStr ''Err'')]\<rparr>
       (AStr ''Error: disk full'') = (False, None)"
proof -
  have t: "Run \<lparr>Op = ''contains'', Data = AStr ''Err''\<rparr> (AStr ''Error: disk full'') = (True, None)"
    by code_simp
  have dt: "ruleDataToRule (AObj [(''Op'', AStr ''contains''), (''Data'', AStr ''Err'')])
              = Inr \<lparr>Op = ''contains'', Data = AStr ''Err''\<rparr>"
    by (simp add: ruleDataToRule_def)
  from not_negates_and_keeps_error[of
      "AObj [(''Op'', AStr ''contains''), (''Data'', AStr ''Err'')]"
      "\<lparr>Op = ''contains'', Data = AStr ''Err''\<rparr>" "AStr ''Error: disk full''"] dt
  have "Run \<lparr>Op = ''not'', Data = AObj [(''Op'', AStr ''contains''), (''Data'', AStr ''Err'')]\<rparr>
       (AStr ''Error: disk full'') = (False, None)"
    unfolding t by simp
  with dt t show ?thesis by blast
qed

section \<open>The scan: failures and the returned page\<close>

lemma scanLines_append:
  "scanLines rule buf (xs @ ys) =
     (case scanLines rule buf xs of Inl f \<Rightarrow> Inl f | Inr b \<Rightarrow> scanLines rule b ys)"
  by (induction xs arbitrary: buf)
    (auto split: option.splits sum.splits prod.splits simp del: Run.simps)

lemma scanEntries_append:
  "scanEntries env dirPath rule buf (xs @ ys) =
     (case scanEntries env dirPath rule buf xs of
        Inl f \<Rightarrow> Inl f
      | Inr b \<Rightarrow> scanEntries env dirPath rule b ys)"
  by (induction xs arbitrary: buf) (auto split: sum.splits)

lemma scanLines_no_rule: "scanLines None buf lines = PushAll buf lines"
  by (induction lines arbitrary: buf) (auto split: sum.splits)

lemma scanLines_holds:
  "holds buf ms \<Longrightarrow> scanLines rule buf lines = Inr buf' \<Longrightarrow>
     holds buf' (ms @ selected rule lines) \<and> capacity buf' = capacity buf"
proof (induction lines arbitrary: buf ms)
  case Nil
  then show ?case by (cases rule) simp_all
next
  case (Cons t rest)
  from holds_Push[OF Cons.prems(1), of t] obtain b1
    where b1: "Push buf t = Inr b1" "holds b1 (ms @ [t])" "capacity b1 = capacity buf"
    by blast
  show ?case
  proof (cases rule)
    case None
    with Cons.prems(2) b1 have "scanLines rule b1 rest = Inr buf'" by simp
    from Cons.IH[OF b1(2) this] b1(3) None show ?thesis by simp
  next
    case (Some r)
    obtain match err where run: "Run r (AStr t) = (match, err)" by (cases "Run r (AStr t)")
    with Cons.prems(2) Some have err: "err = None"
      by (cases err) (simp_all del: Run.simps)
    show ?thesis
    proof (cases match)
      case True
      with Cons.prems(2) Some run err b1 have "scanLines rule b1 rest = Inr buf'"
        by (simp del: Run.simps)
      from Cons.IH[OF b1(2) this] b1(3) Some run True show ?thesis
        by (simp del: Run.simps)
    next
      case False
      with Cons.prems(2) Some run err have "scanLines rule buf rest = Inr buf'"
        by (simp del: Run.simps)
      from Cons.IH[OF Cons.prems(1) this] Some run False show ?thesis
        by (simp del: Run.simps)
    qed
  qed
qed

lemma scanEntries_holds:
  "holds buf ms \<Longrightarrow> scanEntries env dirPath rule buf d = Inr buf' \<Longrightarrow>
     holds buf' (ms @ selected rule (visited env dirPath d)) \<and> capacity buf' = capacity buf"
proof (induction d arbitrary: buf ms)
  case Nil
  then show ?case by (cases rule) (simp_all add: visited_def)
next
  case (Cons de rest)
  have sel_app: "selected rule (xs @ ys) = selected rule xs @ selected rule ys" for xs ys
    by (cases rule) simp_all
  show ?case
  proof (cases "eligible de")
    case False
    with Cons.prems(2) have "scanEntries env dirPath rule buf rest = Inr buf'"
      by (auto simp add: eligible_def split: if_splits)
    from Cons.IH[OF Cons.prems(1) this] False show ?thesis by (simp add: visited_def)
  next
    case True
    with Cons.prems(2) obtain lines b1
      where o: "os_Open env (filepath_Join env dirPath (Name de)) = Inr lines"
        and l: "scanLines rule buf lines = Inr b1"
        and r: "scanEntries env dirPath rule b1 rest = Inr buf'"
      by (auto simp add: eligible_def split: sum.splits)
    from scanLines_holds[OF Cons.prems(1) l]
    have b1: "holds b1 (ms @ selected rule lines)" "capacity b1 = capacity buf" by simp_all
    from Cons.IH[OF b1(1) r] b1(2) True o show ?thesis
      by (simp add: visited_def sel_app)
  qed
qed

lemma scanLines_no_error:
  "scanLines (Some r) buf lines = Inr buf' \<Longrightarrow> text \<in> set lines \<Longrightarrow>
     snd (Run r (AStr text)) = None"
  by (induction lines arbitrary: buf)
    (auto split: sum.splits prod.splits option.splits if_splits simp del: Run.simps)

lemma scanEntries_no_error:
  "scanEntries env dirPath rule buf d = Inr buf' \<Longrightarrow> de \<in> set d \<Longrightarrow> eligible de \<Longrightarrow>
     \<exists>lines. os_Open env (filepath_Join env dirPath (Name de)) = Inr lines \<and>
       (\<forall>r text. rule = Some r \<and> text \<in> set lines \<longrightarrow> snd (Run r (AStr text)) = None)"
proof (induction d arbitrary: buf)
  case Nil
  then show ?case by simp
next
  case (Cons x rest)
  show ?case
  proof (cases "eligible x")
    case False
    with Cons.prems have "scanEntries env dirPath rule buf rest = Inr buf'" "de \<in> set rest"
      by (auto simp add: eligible_def split: if_splits)
    then show ?thesis using Cons.prems(3) by (rule Cons.IH)
  next
    case True
    with Cons.prems(1) obtain lines b1
      where o: "os_Open env (filepath_Join env dirPath (Name x)) = Inr lines"
        and l: "scanLines rule buf lines = Inr b1"
        and r: "scanEntries env dirPath rule b1 rest = Inr buf'"
      by (auto simp add: eligible_def split: sum.splits)
    show ?thesis
    proof (cases "de = x")
      case True
      have "snd (Run r (AStr t)) = None" if "rule = Some r" "t \<in> set lines" for r t
        using l that scanLines_no_error[of r buf lines b1 t] by simp
      with True o show ?thesis by auto
    next
      case False
      with Cons.prems(2) have "de \<in> set rest" by simp
      with r show ?thesis using Cons.prems(3) by (rule Cons.IH)
    qed
  qed
qed

lemma processDir_page:
  assumes "processDir env dirPath rule limit offset = Inr recs"
  shows "\<exists>d buf msgs. os_ReadDir env dirPath = Inr d \<and>
           scanDir env dirPath rule limit offset = Inr buf \<and>
           capacity buf = capacity (NewLogBuffer (int_add limit offset)) \<and>
           Get buf offset limit = Inr msgs \<and>
           msgs = page (retained (capacity buf) (selected rule (visited env dirPath d)))
                    offset limit \<and>
           recs = map (toRecord env) (rev msgs)"
proof -
  from assms obtain buf msgs
    where s: "scanDir env dirPath rule limit offset = Inr buf"
      and g: "Get buf offset limit = Inr msgs"
      and r: "recs = map (toRecord env) (rev msgs)"
    by (auto simp add: processDir_def split: sum.splits)
  from s obtain d
    where d: "os_ReadDir env dirPath = Inr d"
      and e: "scanEntries env dirPath rule (NewLogBuffer (int_add limit offset)) d = Inr buf"
    by (auto simp add: scanDir_def split: sum.splits)
  from scanEntries_holds[OF holds_New e]
  have h: "holds buf (selected rule (visited env dirPath d))"
    and c: "capacity buf = capacity (NewLogBuffer (int_add limit offset))"
    by simp_all
  from holds_Get[OF h, of offset limit] g
  have "msgs = page (retained (capacity buf) (selected rule (visited env dirPath d)))
                 offset limit"
    by (auto split: if_splits)
  with d s c g r show ?thesis by blast
qed

text \<open>
  The buffer of a scan is made by \<open>NewLogBuffer\<close>, so no index is out of range and no
  capacity is 0: a call of \<open>processDir\<close> that fails has returned an error.
\<close>

lemma scanLines_never_panics:
  "holds buf ms \<Longrightarrow> scanLines rule buf lines = Inl f \<Longrightarrow> \<exists>e. f = Failed e"
proof (induction lines arbitrary: buf ms)
  case Nil
  then show ?case by simp
next
  case (Cons t rest)
  from holds_Push[OF Cons.prems(1), of t] obtain b1
    where b1: "Push buf t = Inr b1" "holds b1 (ms @ [t])"
    by blast
  show ?case
  proof (cases rule)
    case None
    with Cons.prems(2) b1 have "scanLines rule b1 rest = Inl f" by simp
    with b1(2) show ?thesis by (rule Cons.IH)
  next
    case (Some r)
    obtain match err where run: "Run r (AStr t) = (match, err)" by (cases "Run r (AStr t)")
    show ?thesis
    proof (cases err)
      case (Some e)
      with Cons.prems(2) \<open>rule = Some r\<close> run show ?thesis by (auto simp del: Run.simps)
    next
      case None
      show ?thesis
      proof (cases match)
        case True
        with Cons.prems(2) \<open>rule = Some r\<close> run None b1
        have "scanLines rule b1 rest = Inl f" by (simp del: Run.simps)
        with b1(2) show ?thesis by (rule Cons.IH)
      next
        case False
        with Cons.prems(2) \<open>rule = Some r\<close> run None
        have "scanLines rule buf rest = Inl f" by (simp del: Run.simps)
        with Cons.prems(1) show ?thesis by (rule Cons.IH)
      qed
    qed
  qed
qed

lemma scanEntries_never_panics:
  "holds buf ms \<Longrightarrow> scanEntries env dirPath rule buf d = Inl f \<Longrightarrow> \<exists>e. f = Failed e"
proof (induction d arbitrary: buf ms)
  case Nil
  then show ?case by simp
next
  case (Cons de rest)
  show ?case
  proof (cases "eligible de")
    case False
    with Cons.prems(2) have "scanEntries env dirPath rule buf rest = Inl f"
      by (auto simp add: eligible_def split: if_splits)
    with Cons.prems(1) show ?thesis by (rule Cons.IH)
  next
    case True
    show ?thesis
    proof (cases "os_Open env (filepath_Join env dirPath (Name de))")
      case (Inl err)
      with True Cons.prems(2) show ?thesis by (auto simp add: eligible_def)
    next
      case (Inr lines)
      show ?thesis
      proof (cases "scanLines rule buf lines")
        case (Inl g)
        with True Inr Cons.prems(2) have "f = g" by (auto simp add: eligible_def)
        with Inl scanLines_never_panics[OF Cons.prems(1)] show ?thesis by blast
      next
        case b1: (Inr b1)
        with True Inr Cons.prems(2) have "scanEntries env dirPath rule b1 rest = Inl f"
          by (auto simp add: eligible_def)
        moreover from scanLines_holds[OF Cons.prems(1) b1]
        have "holds b1 (ms @ selected rule lines)" by simp
        ultimately show ?thesis by (rule Cons.IH[rotated])
      qed
    qed
  qed
qed

lemma processDir_never_panics:
  "processDir env dirPath rule limit offset = Inl f \<Longrightarrow> \<exists>e. f = Failed e"
proof (cases "scanDir env dirPath rule limit offset")
  case (Inl g)
  assume "processDir env dirPath rule limit offset = Inl f"
  with Inl have "f = g" by (simp add: processDir_def)
  with Inl show ?thesis
    using scanEntries_never_panics[OF holds_New]
    by (auto simp add: scanDir_def split: sum.splits)
next
  case (Inr buf)
  assume a: "processDir env dirPath rule limit offset = Inl f"
  from Inr obtain d
    where "scanEntries env dirPath rule (NewLogBuffer (int_add limit offset)) d = Inr buf"
    by (auto simp add: scanDir_def split: sum.splits)
  from scanEntries_holds[OF holds_New this]
  have "holds buf (selected rule (visited env dirPath d))" by simp
  from holds_Get[OF this, of offset limit] a Inr show ?thesis
    by (auto simp add: processDir_def split: sum.splits if_splits)
qed

text \<open>
  Claim C7. When the directory cannot be read, \<open>processDir\<close> returns that error. When
  the entries \<open>ds\<close> have been scanned into \<open>buf\<close> and the next eligible file cannot be
  opened, it returns that error. When moreover the lines \<open>ls\<close> of that file have been
  scanned and the rule's evaluation on the next line returns an error, it returns that
  error, wrapped with the line. In each case the result is a failure, which carries no
  records, whatever \<open>buf\<close> holds. Conversely a call that returns records has met no
  error: the directory was read, every eligible file was opened and the rule returned
  no error on any line.
\<close>

theorem processDir_aborts_on_error:
  "(os_ReadDir env dirPath = Inl err \<longrightarrow>
      processDir env dirPath rule limit offset = Inl (Failed err)) \<and>
   (os_ReadDir env dirPath = Inr (ds @ de # rest) \<and>
    scanEntries env dirPath rule (NewLogBuffer (int_add limit offset)) ds = Inr buf \<and>
    eligible de \<and> os_Open env (filepath_Join env dirPath (Name de)) = Inl err \<longrightarrow>
      processDir env dirPath rule limit offset = Inl (Failed err)) \<and>
   (os_ReadDir env dirPath = Inr (ds @ de # rest) \<and>
    scanEntries env dirPath (Some r) (NewLogBuffer (int_add limit offset)) ds = Inr buf \<and>
    eligible de \<and>
    os_Open env (filepath_Join env dirPath (Name de)) = Inr (ls @ line # later) \<and>
    scanLines (Some r) buf ls = Inr buf' \<and> Run r (AStr line) = (match, Some err) \<longrightarrow>
      processDir env dirPath (Some r) limit offset = Inl (Failed (ProcessingRule line err))) \<and>
   (processDir env dirPath rule limit offset = Inr recs \<longrightarrow>
      (\<exists>d. os_ReadDir env dirPath = Inr d \<and>
         (\<forall>de\<in>set d. eligible de \<longrightarrow>
            (\<exists>lines. os_Open env (filepath_Join env dirPath (Name de)) = Inr lines \<and>
               (\<forall>r line. rule = Some r \<and> line \<in> set lines \<longrightarrow>
                  snd (Run r (AStr line)) = None)))))"
proof (intro conjI impI)
  assume "os_ReadDir env dirPath = Inl err"
  then show "processDir env dirPath rule limit offset = Inl (Failed err)"
    by (simp add: processDir_def scanDir_def)
next
  assume a: "os_ReadDir env dirPath = Inr (ds @ de # rest) \<and>
    scanEntries env dirPath rule (NewLogBuffer (int_add limit offset)) ds = Inr buf \<and>
    eligible de \<and> os_Open env (filepath_Join env dirPath (Name de)) = Inl err"
  then have "scanEntries env dirPath rule buf (de # rest) = Inl (Failed err)"
    by (simp add: eligible_def)
  with a have "scanEntries env dirPath rule (NewLogBuffer (int_add limit offset))
                 (ds @ de # rest) = Inl (Failed err)"
    by (simp add: scanEntries_append)
  with a show "processDir env dirPath rule limit offset = Inl (Failed err)"
    by (simp add: processDir_def scanDir_def)
next
  assume a: "os_ReadDir env dirPath = Inr (ds @ de # rest) \<and>
    scanEntries env dirPath (Some r) (NewLogBuffer (int_add limit offset)) ds = Inr buf \<and>
    eligible de \<and>
    os_Open env (filepath_Join env dirPath (Name de)) = Inr (ls @ line # later) \<and>
    scanLines (Some r) buf ls = Inr buf' \<and> Run r (AStr line) = (match, Some err)"
  then have "scanLines (Some r) buf' (line # later) = Inl (Failed (ProcessingRule line err))"
    by (simp del: Run.simps)
  with a have "scanLines (Some r) buf (ls @ line # later)
                 = Inl (Failed (ProcessingRule line err))"
    by (simp add: scanLines_append del: Run.simps)
  with a have "scanEntries env dirPath (Some r) buf (de # rest)
                 = Inl (Failed (ProcessingRule line err))"
    by (simp add: eligible_def del: Run.simps)
  with a have "scanEntries env dirPath (Some r) (NewLogBuffer (int_add limit offset))
                 (ds @ de # rest) = Inl (Failed (ProcessingRule line err))"
    by (simp add: scanEntries_append)
  with a show "processDir env dirPath (Some r) limit offset
                 = Inl (Failed (ProcessingRule line err))"
    by (simp add: processDir_def scanDir_def)
next
  assume "processDir env dirPath rule limit offset = Inr recs"
  then obtain d buf
    where d: "os_ReadDir env dirPath = Inr d"
      and e: "scanEntries env dirPath rule (NewLogBuffer (int_add limit offset)) d = Inr buf"
    by (auto simp add: processDir_def scanDir_def split: sum.splits)
  from scanEntries_no_error[OF e] d
  show "\<exists>d. os_ReadDir env dirPath = Inr d \<and>
         (\<forall>de\<in>set d. eligible de \<longrightarrow>
            (\<exists>lines. os_Open env (filepath_Join env dirPath (Name de)) = Inr lines \<and>
               (\<forall>r line. rule = Some r \<and> line \<in> set lines \<longrightarrow>
                  snd (Run r (AStr line)) = None)))"
    by blast
qed

theorem processDir_aborts_on_error_witness:
  "os_ReadDir twoLogFiles ''nowhere'' = Inl (OsError ''no such file or directory'') \<and>
   processDir twoLogFiles ''nowhere'' None 2 0
     = Inl (Failed (OsError ''no such file or directory'')) \<and>
   os_ReadDir mixedLog ''logs''
     = Inr ([\<lparr>Name = ''app.log'', IsDir = False\<rparr>] @ \<lparr>Name = ''missing.log'', IsDir = False\<rparr> # []) \<and>
   scanEntries mixedLog ''logs'' None (NewLogBuffer (int_add 2 0))
       [\<lparr>Name = ''app.log'', IsDir = False\<rparr>]
     = Inr \<lparr>buffer = [''{}'', ''plain text''], capacity = 2, size_b = 2,
            start = 0, end_b = 0, isFull = True\<rparr> \<and>
   eligible \<lparr>Name = ''missing.log'', IsDir = False\<rparr> \<and>
   os_Open mixedLog (filepath_Join mixedLog ''logs'' (Name \<lparr>Name = ''missing.log'', IsDir = False\<rparr>))
     = Inl (OsError ''no such file or directory'') \<and>
   processDir mixedLog ''logs'' None 2 0
     = Inl (Failed (OsError ''no such file or directory'')) \<and>
   os_ReadDir twoLogFiles ''logs''
     = Inr ([] @ \<lparr>Name = ''a.log'', IsDir = False\<rparr> # [\<lparr>Name = ''b.log'', IsDir = False\<rparr>]) \<and>
   scanEntries twoLogFiles ''logs'' (Some firstLineOnly) (NewLogBuffer (int_add 2 0)) []
     = Inr (NewLogBuffer 2) \<and>
   eligible \<lparr>Name = ''a.log'', IsDir = False\<rparr> \<and>
   os_Open twoLogFiles (filepath_Join twoLogFiles ''logs'' (Name \<lparr>Name = ''a.log'', IsDir = False\<rparr>))
     = Inr ([''a1''] @ ''a2'' # [''a3'']) \<and>
   scanLines (Some firstLineOnly) (NewLogBuffer 2) [''a1'']
     = Inr \<lparr>buffer = [''a1'', []], capacity = 2, size_b = 1, start = 0, end_b = 1,
            isFull = False\<rparr> \<and>
   Run firstLineOnly (AStr ''a2'') = (False, Some (OrRunning 1 (RunOpNotFound ''missing''))) \<and>
   processDir twoLogFiles ''logs'' (Some firstLineOnly) 2 0
     = Inl (Failed (ProcessingRule ''a2'' (OrRunning 1 (RunOpNotFound ''missing'')))) \<and>
   processDir appLog ''logs'' None 2 0 = Inr [[(''message'', AStr ''plain text'')], []] \<and>
   (\<exists>d. os_ReadDir appLog ''logs'' = Inr d \<and>
      (\<forall>de\<in>set d. eligible de \<longrightarrow>
         (\<exists>lines. os_Open appLog (filepath_Join appLog ''logs'' (Name de)) = Inr lines)))"
proof -
  have r1: "os_ReadDir twoLogFiles ''nowhere'' = Inl (OsError ''no such file or directory'')"
    by (simp add: twoLogFiles_def)
  from processDir_aborts_on_error[where env = twoLogFiles and dirPath = "''nowhere''"
      and err = "OsError ''no such file or directory''" and rule = None
      and limit = 2 and offset = 0] r1
  have p1: "processDir twoLogFiles ''nowhere'' None 2 0
              = Inl (Failed (OsError ''no such file or directory''))"
    by blast
  have r2: "os_ReadDir mixedLog ''logs''
     = Inr ([\<lparr>Name = ''app.log'', IsDir = False\<rparr>] @ \<lparr>Name = ''missing.log'', IsDir = False\<rparr> # [])"
    by (simp add: mixedLog_def appLog_def)
  have s2: "scanEntries mixedLog ''logs'' None (NewLogBuffer (int_add 2 0))
       [\<lparr>Name = ''app.log'', IsDir = False\<rparr>]
     = Inr \<lparr>buffer = [''{}'', ''plain text''], capacity = 2, size_b = 2,
            start = 0, end_b = 0, isFull = True\<rparr>"
    by code_simp
  have e2: "eligible \<lparr>Name = ''missing.log'', IsDir = False\<rparr>"
    by code_simp
  have o2: "os_Open mixedLog
       (filepath_Join mixedLog ''logs'' (Name \<lparr>Name = ''missing.log'', IsDir = False\<rparr>))
     = Inl (OsError ''no such file or directory'')"
    by (simp add: mixedLog_def appLog_def)
  from processDir_aborts_on_error[where env = mixedLog and dirPath = "''logs''"
      and err = "OsError ''no such file or directory''" and rule = None
      and limit = 2 and offset = 0 and ds = "[\<lparr>Name = ''app.log'', IsDir = False\<rparr>]"
      and de = "\<lparr>Name = ''missing.log'', IsDir = False\<rparr>" and rest = "[]"] r2 s2 e2 o2
  have p2: "processDir mixedLog ''logs'' None 2 0
              = Inl (Failed (OsError ''no such file or directory''))"
    by blast
  have r3: "os_ReadDir twoLogFiles ''logs''
     = Inr ([] @ \<lparr>Name = ''a.log'', IsDir = False\<rparr> # [\<lparr>Name = ''b.log'', IsDir = False\<rparr>])"
    by (simp add: twoLogFiles_def)
  have s3: "scanEntries twoLogFiles ''logs'' (Some firstLineOnly) (NewLogBuffer (int_add 2 0)) []
     = Inr (NewLogBuffer 2)"
    by (simp add: int_add_def)
  have e3: "eligible \<lparr>Name = ''a.log'', IsDir = False\<rparr>"
    by code_simp
  have o3: "os_Open twoLogFiles
       (filepath_Join twoLogFiles ''logs'' (Name \<lparr>Name = ''a.log'', IsDir = False\<rparr>))
     = Inr ([''a1''] @ ''a2'' # [''a3''])"
    by (simp add: twoLogFiles_def)
  have l3: "scanLines (Some firstLineOnly) (NewLogBuffer 2) [''a1'']
     = Inr \<lparr>buffer = [''a1'', []], capacity = 2, size_b = 1, start = 0, end_b = 1,
            isFull = False\<rparr>"
    by code_simp
  have u3: "Run firstLineOnly (AStr ''a2'')
              = (False, Some (OrRunning 1 (RunOpNotFound ''missing'')))"
    by code_simp
  from processDir_aborts_on_error[where env = twoLogFiles and dirPath = "''logs''"
      and limit = 2 and offset = 0 and ds = "[]"
      and de = "\<lparr>Name = ''a.log'', IsDir = False\<rparr>"
      and rest = "[\<lparr>Name = ''b.log'', IsDir = False\<rparr>]"
      and r = firstLineOnly and ls = "[''a1'']" and line = "''a2''" and later = "[''a3'']"
      and match = False and err = "OrRunning 1 (RunOpNotFound ''missing'')"]
    r3 s3 e3 o3 l3 u3
  have p3: "processDir twoLogFiles ''logs'' (Some firstLineOnly) 2 0
     = Inl (Failed (ProcessingRule ''a2'' (OrRunning 1 (RunOpNotFound ''missing''))))"
    by blast
  have r4: "processDir appLog ''logs'' None 2 0 = Inr [[(''message'', AStr ''plain text'')], []]"
    by code_simp
  from processDir_aborts_on_error[where env = appLog and dirPath = "''logs''" and rule = None
      and limit = 2 and offset = 0 and recs = "[[(''message'', AStr ''plain text'')], []]",
      THEN conjunct2, THEN conjunct2, THEN conjunct2, THEN mp, OF r4]
  have p4: "\<exists>d. os_ReadDir appLog ''logs'' = Inr d \<and>
      (\<forall>de\<in>set d. eligible de \<longrightarrow>
         (\<exists>lines. os_Open appLog (filepath_Join appLog ''logs'' (Name de)) = Inr lines))"
    by blast
  from r1 p1 r2 s2 e2 o2 p2 r3 s3 e3 o3 l3 u3 p3 r4 p4 show ?thesis by blast
qed

text \<open>
  Claim C8. A call of \<open>processDir\<close> that succeeds has scanned into a buffer \<open>buf\<close>,
  taken the page \<open>msgs\<close> with one \<open>Get buf offset limit\<close>, and returns one record for
  each line of the page, in reverse order: record \<open>i\<close> comes from the line \<open>i\<close> places
  before the newest of the page. A line that decodes gives its mapping; a line that
  does not gives the single field \<open>message\<close> with the raw line. The page is the window
  of the specification over the lines that the scan selected.
\<close>

theorem processDir_returns_reversed_page:
  "processDir env dirPath rule limit offset = Inr recs \<longrightarrow>
     (\<exists>d buf msgs.
        os_ReadDir env dirPath = Inr d \<and>
        scanDir env dirPath rule limit offset = Inr buf \<and>
        Get buf offset limit = Inr msgs \<and>
        msgs = page (retained (Capacity buf) (selected rule (visited env dirPath d)))
                 offset limit \<and>
        length recs = length msgs \<and>
        (\<forall>i<length msgs.
           recs ! i =
             (case json_Unmarshal env (msgs ! (length msgs - 1 - i)) of
                None \<Rightarrow> [(''message'', AStr (msgs ! (length msgs - 1 - i)))]
              | Some msgParsed \<Rightarrow> msgParsed)))"
proof
  assume "processDir env dirPath rule limit offset = Inr recs"
  from processDir_page[OF this] obtain d buf msgs
    where d: "os_ReadDir env dirPath = Inr d"
      and s: "scanDir env dirPath rule limit offset = Inr buf"
      and g: "Get buf offset limit = Inr msgs"
      and p: "msgs = page (retained (capacity buf) (selected rule (visited env dirPath d)))
                       offset limit"
      and r: "recs = map (toRecord env) (rev msgs)"
    by blast
  have "recs ! i =
          (case json_Unmarshal env (msgs ! (length msgs - 1 - i)) of
             None \<Rightarrow> [(''message'', AStr (msgs ! (length msgs - 1 - i)))]
           | Some msgParsed \<Rightarrow> msgParsed)"
    if "i < length msgs" for i
    using that by (simp add: r rev_nth toRecord_def split: option.splits)
  moreover have "length recs = length msgs" by (simp add: r)
  ultimately show "\<exists>d buf msgs.
        os_ReadDir env dirPath = Inr d \<and>
        scanDir env dirPath rule limit offset = Inr buf \<and>
        Get buf offset limit = Inr msgs \<and>
        msgs = page (retained (Capacity buf) (selected rule (visited env dirPath d)))
                 offset limit \<and>
        length recs = length msgs \<and>
        (\<forall>i<length msgs.
           recs ! i =
             (case json_Unmarshal env (msgs ! (length msgs - 1 - i)) of
                None \<Rightarrow> [(''message'', AStr (msgs ! (length msgs - 1 - i)))]
              | Some msgParsed \<Rightarrow> msgParsed))"
    using d s g p unfolding Capacity_def by blast
qed

theorem processDir_returns_reversed_page_witness:
  "processDir appLog ''logs'' None 2 0 = Inr [[(''message'', AStr ''plain text'')], []] \<and>
   (\<exists>d buf msgs.
      os_ReadDir appLog ''logs'' = Inr d \<and>
      scanDir appLog ''logs'' None 2 0 = Inr buf \<and>
      Get buf 0 2 = Inr msgs \<and>
      msgs = page (retained (Capacity buf) (selected None (visited appLog ''logs'' d))) 0 2 \<and>
      length [[(''message'', AStr ''plain text'')], []] = length msgs \<and>
      (\<forall>i<length msgs.
         [[(''message'', AStr ''plain text'')], []] ! i =
           (case json_Unmarshal appLog (msgs ! (length msgs - 1 - i)) of
              None \<Rightarrow> [(''message'', AStr (msgs ! (length msgs - 1 - i)))]
            | Some msgParsed \<Rightarrow> msgParsed)))"
proof -
  have h: "processDir appLog ''logs'' None 2 0 = Inr [[(''message'', AStr ''plain text'')], []]"
    by code_simp
  from processDir_returns_reversed_page[of appLog "''logs''" None 2 0
      "[[(''message'', AStr ''plain text'')], []]"] h
  show ?thesis by blast
qed

text \<open>
  Claim C9, on the code. In the directory \<open>twoLogFiles\<close> (two files of three lines,
  none of which decodes) the call with no rule, limit 3 and offset 3 returns the three
  lines of the first file, newest first: a3, a2, a1, not a1, a2, a3.
\<close>

theorem page_is_newest_first_counterexample:
  "processDir twoLogFiles ''logs'' None 3 3
     = Inr [[(''message'', AStr ''a3'')], [(''message'', AStr ''a2'')],
            [(''message'', AStr ''a1'')]] \<and>
   processDir twoLogFiles ''logs'' None 3 3
     \<noteq> Inr [[(''message'', AStr ''a1'')], [(''message'', AStr ''a2'')],
            [(''message'', AStr ''a3'')]]"
  by code_simp

text \<open>
  Claim C9, amended. For a directory holding two log files of three lines each,
  \<open>processDir\<close> with no rule, limit 3 and offset 3 returns exactly the three
  oldest-visited lines (those of the file listed first), skipping the three most
  recently visited, in newest-first order: the third line of that file first, its first
  line last.
\<close>

theorem two_files_page_is_newest_first:
  "os_ReadDir env dirPath = Inr [f1, f2] \<and> eligible f1 \<and> eligible f2 \<and>
   os_Open env (filepath_Join env dirPath (Name f1)) = Inr [a1, a2, a3] \<and>
   os_Open env (filepath_Join env dirPath (Name f2)) = Inr [b1, b2, b3] \<longrightarrow>
     processDir env dirPath None 3 3
       = Inr [toRecord env a3, toRecord env a2, toRecord env a1]"
proof
  assume a: "os_ReadDir env dirPath = Inr [f1, f2] \<and> eligible f1 \<and> eligible f2 \<and>
   os_Open env (filepath_Join env dirPath (Name f1)) = Inr [a1, a2, a3] \<and>
   os_Open env (filepath_Join env dirPath (Name f2)) = Inr [b1, b2, b3]"
  have six: "int_add 3 3 = 6" by (simp add: int_add_def)
  from holds_PushAll[OF holds_New, of 6 "[a1, a2, a3]"] obtain b1'
    where b1: "PushAll (NewLogBuffer 6) [a1, a2, a3] = Inr b1'" "holds b1' ([] @ [a1, a2, a3])"
      "capacity b1' = capacity (NewLogBuffer 6)"
    by blast
  from holds_PushAll[OF b1(2), of "[b1, b2, b3]"] obtain b2'
    where b2: "PushAll b1' [b1, b2, b3] = Inr b2'"
      "holds b2' (([] @ [a1, a2, a3]) @ [b1, b2, b3])" "capacity b2' = capacity b1'"
    by blast
  have l1: "scanLines None (NewLogBuffer 6) [a1, a2, a3] = Inr b1'"
    using b1(1) by (simp only: scanLines_no_rule)
  have l2: "scanLines None b1' [b1, b2, b3] = Inr b2'"
    using b2(1) by (simp only: scanLines_no_rule)
  have scan: "scanDir env dirPath None 3 3 = Inr b2'"
    using a by (simp add: scanDir_def six eligible_def l1 l2 del: scanLines.simps)
  have cap: "capacity b2' = 6" using b1(3) b2(3) by (simp add: capacity_New)
  have "Get b2' 3 3 = Inr (page (retained 6 [a1, a2, a3, b1, b2, b3]) 3 3)"
    using holds_Get[OF b2(2), of 3 3] cap by simp
  also have "page (retained 6 [a1, a2, a3, b1, b2, b3]) 3 3 = [a1, a2, a3]"
    by (simp add: page_def retained_def eval_nat_numeral)
  finally show "processDir env dirPath None 3 3
                  = Inr [toRecord env a3, toRecord env a2, toRecord env a1]"
    using scan by (simp add: processDir_def)
qed

theorem two_files_page_is_newest_first_witness:
  "os_ReadDir twoLogFiles ''logs''
     = Inr [\<lparr>Name = ''a.log'', IsDir = False\<rparr>, \<lparr>Name = ''b.log'', IsDir = False\<rparr>] \<and>
   eligible \<lparr>Name = ''a.log'', IsDir = False\<rparr> \<and>
   eligible \<lparr>Name = ''b.log'', IsDir = False\<rparr> \<and>
   os_Open twoLogFiles (filepath_Join twoLogFiles ''logs'' (Name \<lparr>Name = ''a.log'', IsDir = False\<rparr>))
     = Inr [''a1'', ''a2'', ''a3''] \<and>
   os_Open twoLogFiles (filepath_Join twoLogFiles ''logs'' (Name \<lparr>Name = ''b.log'', IsDir = False\<rparr>))
     = Inr [''b1'', ''b2'', ''b3''] \<and>
   processDir twoLogFiles ''logs'' None 3 3
     = Inr [toRecord twoLogFiles ''a3'', toRecord twoLogFiles ''a2'', toRecord twoLogFiles ''a1'']"
proof -
  have r: "os_ReadDir twoLogFiles ''logs''
     = Inr [\<lparr>Name = ''a.log'', IsDir = False\<rparr>, \<lparr>Name = ''b.log'', IsDir = False\<rparr>]"
    by (simp add: twoLogFiles_def)
  have e1: "eligible \<lparr>Name = ''a.log'', IsDir = False\<rparr>"
    by code_simp
  have e2: "eligible \<lparr>Name = ''b.log'', IsDir = False\<rparr>"
    by code_simp
  have o1: "os_Open twoLogFiles
              (filepath_Join twoLogFiles ''logs'' (Name \<lparr>Name = ''a.log'', IsDir = False\<rparr>))
     = Inr [''a1'', ''a2'', ''a3'']"
    by (simp add: twoLogFiles_def)
  have o2: "os_Open twoLogFiles
              (filepath_Join twoLogFiles ''logs'' (Name \<lparr>Name = ''b.log'', IsDir = False\<rparr>))
     = Inr [''b1'', ''b2'', ''b3'']"
    by (simp add: twoLogFiles_def)
  from two_files_page_is_newest_first[where env = twoLogFiles and dirPath = "''logs''"
      and ?f1.0 = "\<lparr>Name = ''a.log'', IsDir = False\<rparr>"
      and ?f2.0 = "\<lparr>Name = ''b.log'', IsDir = False\<rparr>"
      and ?a1.0 = "''a1''" and ?a2.0 = "''a2''" and ?a3.0 = "''a3''"
      and ?b1.0 = "''b1''" and ?b2.0 = "''b2''" and ?b3.0 = "''b3''"] r e1 e2 o1 o2
  show ?thesis by blast
qed

text \<open>
  Claim C10. \<open>NewLogBuffer\<close> with a capacity of 0 or less makes a buffer of capacity
  100 (with 100 slots) and does not fail. \<open>processDir\<close> passes it Go's \<open>limit + offset\<close>:
  when that sum is 0 or less, the buffer that the scan returns has capacity 100, not
  \<open>limit + offset\<close>. Go's sum is the mathematical one when that is not below \<open>- 2 ^ 63\<close>.
\<close>

theorem nonpositive_capacity_defaults_to_100:
  "(c \<le> 0 \<longrightarrow>
      Capacity (NewLogBuffer c) = 100 \<and> length (buffer (NewLogBuffer c)) = 100 \<and>
      Size (NewLogBuffer c) = 0) \<and>
   (int_add limit offset \<le> 0 \<and> scanDir env dirPath rule limit offset = Inr buf \<longrightarrow>
      Capacity buf = 100 \<and> length (buffer buf) = 100 \<and>
      Capacity buf \<noteq> int_add limit offset) \<and>
   (- (2 ^ 63) \<le> limit + offset \<and> limit + offset \<le> 0 \<longrightarrow>
      int_add limit offset = limit + offset)"
proof (intro conjI impI)
  assume "c \<le> 0"
  then show "Capacity (NewLogBuffer c) = 100" "length (buffer (NewLogBuffer c)) = 100"
    "Size (NewLogBuffer c) = 0"
    by (simp_all add: Capacity_def Size_def NewLogBuffer_def)
next
  assume a: "int_add limit offset \<le> 0 \<and> scanDir env dirPath rule limit offset = Inr buf"
  then obtain d
    where e: "scanEntries env dirPath rule (NewLogBuffer (int_add limit offset)) d = Inr buf"
    by (auto simp add: scanDir_def split: sum.splits)
  from scanEntries_holds[OF holds_New e]
  have h: "holds buf (selected rule (visited env dirPath d))"
    and c: "capacity buf = capacity (NewLogBuffer (int_add limit offset))"
    by simp_all
  from c a have c100: "capacity buf = 100" by (simp add: capacity_New)
  then show "Capacity buf = 100" by (simp add: Capacity_def)
  from h c100 show "length (buffer buf) = 100" by (simp add: holds_def)
  from a c100 show "Capacity buf \<noteq> int_add limit offset" by (simp add: Capacity_def)
next
  assume "- (2 ^ 63) \<le> limit + offset \<and> limit + offset \<le> 0"
  then have "0 \<le> limit + offset + 2 ^ 63" "limit + offset + 2 ^ 63 < 2 ^ 64" by simp_all
  then have "(limit + offset + 2 ^ 63) mod 2 ^ 64 = limit + offset + 2 ^ 63"
    by (rule mod_pos_pos_trivial)
  then show "int_add limit offset = limit + offset" by (simp add: int_add_def)
qed

theorem nonpositive_capacity_defaults_to_100_witness:
  "(-5::int) \<le> 0 \<and> Capacity (NewLogBuffer (-5)) = 100 \<and>
   int_add 0 0 \<le> 0 \<and>
   (\<exists>buf. scanDir twoLogFiles ''logs'' None 0 0 = Inr buf \<and> Size buf = 6 \<and>
      Capacity buf = 100) \<and>
   - (2 ^ 63) \<le> (0::int) + 0 \<and> (0::int) + 0 \<le> 0 \<and> int_add 0 0 = 0 + 0"
proof -
  have z: "int_add 0 0 \<le> 0" by (simp add: int_add_def)
  have "case scanDir twoLogFiles ''logs'' None 0 0 of
          Inl f \<Rightarrow> False | Inr buf \<Rightarrow> Size buf = 6"
    by code_simp
  then obtain buf where s: "scanDir twoLogFiles ''logs'' None 0 0 = Inr buf" "Size buf = 6"
    by (auto split: sum.splits)
  note w = nonpositive_capacity_defaults_to_100[where c = "-5" and limit = 0 and offset = 0
      and env = twoLogFiles and dirPath = "''logs''" and rule = None and buf = buf]
  from w z s have "Capacity buf = 100" by blast
  moreover from w have "Capacity (NewLogBuffer (-5)) = 100" by simp
  moreover from w have "int_add 0 0 = 0 + 0" by simp
  ultimately show ?thesis using z s by auto
qed

end
